theory Spec2Isabelle
  imports Main "HOL-Library.Word" "HOL-Library.Log_Nat"
begin

section \<open>The batching Kinesis producer (package batchproducer)\<close>

text \<open>
  The producer collects records in a buffered channel and sends them to Kinesis in batches
  with \<open>PutRecords\<close>. The model follows the Go source function by function. Go's \<open>int\<close>
  is modelled by \<open>int\<close>: the counters only move by one or by a batch length, and the
  configuration integers are only compared. \<open>time.Duration\<close> is an \<open>int64\<close> count of
  nanoseconds and is doubled by the backoff, so it is a 64-bit word read as signed.
\<close>

subsection \<open>Durations\<close>

type_synonym Duration = "64 word"

definition Millisecond :: Duration where
  "Millisecond = 1000000"

definition Second :: Duration where
  "Second = 1000 * Millisecond"

definition MaxKinesisBatchSize :: int where
  "MaxKinesisBatchSize = 500"

subsection \<open>The float32 quotient of two lengths\<close>

text \<open>
  \<open>isBufferFull\<close> and \<open>isBufferFullOrNearlyFull\<close> divide \<open>float32(len)\<close> by
  \<open>float32(cap)\<close> and compare with a constant. Only non-negative values occur. A float32
  has a 24-bit significand; conversion and division round to nearest, ties to even.
  \<open>0/0\<close> is NaN and every comparison with NaN is false.
\<close>

datatype float32 = NaN | PosInf | Finite rat

definition expo2 :: "rat \<Rightarrow> int" where
  "expo2 x =
     (let (a, b) = quotient_of x;
          d = int (floorlog 2 (nat a)) - int (floorlog 2 (nat b))
      in if power_int 2 d \<le> x then d else d - 1)"

definition round_half_even :: "rat \<Rightarrow> int" where
  "round_half_even y =
     (let f = \<lfloor>y\<rfloor>; r = y - of_int f
      in if r < 1 / 2 then f
         else if 1 / 2 < r then f + 1
         else if even f then f else f + 1)"

definition round32 :: "rat \<Rightarrow> rat" where
  "round32 x =
     (if x \<le> 0 then 0
      else let e = expo2 x
           in of_int (round_half_even (x * power_int 2 (23 - e))) * power_int 2 (e - 23))"

definition float32_of_int :: "int \<Rightarrow> float32" where
  "float32_of_int n = Finite (round32 (of_int n))"

definition float32_const :: "rat \<Rightarrow> float32" where
  "float32_const c = Finite (round32 c)"

fun float32_div :: "float32 \<Rightarrow> float32 \<Rightarrow> float32" where
  "float32_div (Finite x) (Finite y) =
     (if y = 0 then (if x = 0 then NaN else PosInf) else Finite (round32 (x / y)))"
| "float32_div NaN _ = NaN"
| "float32_div _ NaN = NaN"
| "float32_div PosInf PosInf = NaN"
| "float32_div PosInf (Finite y) = PosInf"
| "float32_div (Finite x) PosInf = Finite 0"

fun float32_ge :: "float32 \<Rightarrow> float32 \<Rightarrow> bool" where
  "float32_ge NaN _ = False"
| "float32_ge _ NaN = False"
| "float32_ge PosInf _ = True"
| "float32_ge (Finite x) PosInf = False"
| "float32_ge (Finite x) (Finite y) = (y \<le> x)"

subsection \<open>Data\<close>

record StatsBatch =
  StatBufferSize :: int
  KinesisErrorsSinceLastStat :: int
  RecordsSentSuccessfullySinceLastStat :: int
  RecordsDroppedSinceLastStat :: int

text \<open>
  \<open>Config\<close>: \<open>StatReceiver\<close> says whether a receiver is set (non-nil); the receiver's
  \<open>Receive\<close> is an effect. \<open>Logger\<close> is required to be set and is not a field here; what
  is logged is an effect as well.
\<close>

record Config =
  AddBlocksWhenBufferFull :: bool
  BatchSize :: int
  BufferSize :: int
  FlushInterval :: Duration
  MaxAttemptsPerRecord :: int
  StatInterval :: Duration
  StatReceiver :: bool

record batchRecord =
  data :: "8 word list"
  partitionKey :: string
  sendAttempts :: int

datatype Event = Error (str: string)

definition newError :: "string \<Rightarrow> Event" where
  "newError s = Error s"

text \<open>The request and response of \<open>PutRecords\<close>; a pointer is an option.\<close>

record PutRecordsRequestEntry =
  PartitionKey :: string
  Data :: "8 word list"

record PutRecordsInput =
  StreamName :: string
  Records :: "PutRecordsRequestEntry list"

record PutRecordsResultEntry =
  ErrorCode :: "string option"
  ErrorMessage :: "string option"

record PutRecordsOutput =
  FailedRecordCount :: "int option"
  ResultRecords :: "PutRecordsResultEntry option list"

text \<open>
  What the producer does to the outside, in the order it does it: sleeping, calling the
  sink, handing a snapshot to the stat receiver, and writing a log line (the values that
  the format string prints).
\<close>

datatype LogLine =
    Delaying Duration int
  | Dropping nat int
  | Returning nat int
  | Succeeded int
  | PartialSuccess int "int option"
  | DroppingFailedRecord int string string

datatype Effect =
    Sleep Duration
  | PutRecordsCall PutRecordsInput
  | Receive StatsBatch
  | Debug LogLine
  | ErrorLog LogLine

text \<open>
  A goroutine started with \<open>go\<close> by \<open>sendBatch\<close>: \<open>returnRecordsToBuffer\<close> with the
  records it still has to send, or \<open>returnSomeFailedRecordsToBuffer\<close> with its two
  arguments and the index its loop has reached.
\<close>

datatype Goroutine =
    ReturnRecords "batchRecord list"
  | ReturnSomeFailed nat PutRecordsOutput "batchRecord list"

text \<open>
  A sender waiting at \<open>b.records <- v\<close> because the buffer is full: a caller of \<open>Add\<close>
  (which returns nil once the send is through), or a goroutine, with what it goes on to do.
\<close>

datatype Sender = AddCaller | Resume Goroutine

text \<open>
  The producer. \<open>records\<close> holds what is buffered in the channel, the oldest element first;
  its capacity is \<open>BufferSize\<close>. \<open>sendq\<close> is the channel's queue of waiting senders with
  the values they send. \<open>events\<close> are the events published on the events channel, in order
  (the embedder reads them; a publication that has to wait for the embedder is not
  modelled). \<open>client\<close> is the state of the sink object. \<open>goroutines\<close> are the goroutines
  that are ready to run, \<open>effects\<close> is the trace of effects, the latest last, and \<open>woken\<close>
  lists what the \<open>Add\<close> calls that had been waiting have returned. The channels \<open>start\<close>
  and \<open>stop\<close> are unbuffered rendezvous points and carry no state; \<open>worker\<close> says whether
  the goroutine of \<open>run\<close> is alive.
\<close>

record 'c batchProducer =
  client :: 'c
  streamName :: string
  config :: Config
  running :: bool
  consecutiveErrors :: int
  currentDelay :: Duration
  currentStat :: StatsBatch
  records :: "batchRecord list"
  sendq :: "(batchRecord \<times> Sender) list"
  events :: "Event list"
  worker :: bool
  goroutines :: "Goroutine list"
  effects :: "Effect list"
  woken :: "string option list"

type_synonym 'c PutRecords =
  "'c \<Rightarrow> PutRecordsInput \<Rightarrow> (PutRecordsOutput option \<times> string option) \<times> 'c"

datatype 'a result = Ok 'a | Err string | Panic string



definition new_StatsBatch :: StatsBatch where
  "new_StatsBatch =
     \<lparr>StatBufferSize = 0, KinesisErrorsSinceLastStat = 0,
      RecordsSentSuccessfullySinceLastStat = 0, RecordsDroppedSinceLastStat = 0\<rparr>"

subsection \<open>New\<close>

text \<open>
  \<open>make(chan T, n)\<close> panics for a negative \<open>n\<close>; the three checks come first, in the
  order of the source.
\<close>

definition New :: "'c \<Rightarrow> string \<Rightarrow> Config \<Rightarrow> 'c batchProducer result" where
  "New cl name cfg =
     (if BatchSize cfg < 1 \<or> BatchSize cfg > MaxKinesisBatchSize
      then Err ''BatchSize must be between 1 and 500 inclusive''
      else if BufferSize cfg < BatchSize cfg \<and> sint (FlushInterval cfg) \<le> 0
      then Err ''if BufferSize < BatchSize && FlushInterval <= 0 then the buffer will eventually fill up and Add will block forever''
      else if sint (FlushInterval cfg) > 0 \<and> sint (FlushInterval cfg) < sint (50 * Millisecond)
      then Err ''are you crazy''
      else if BufferSize cfg < 0
      then Panic ''makechan: size out of range''
      else Ok \<lparr>client = cl, streamName = name, config = cfg, running = False,
               consecutiveErrors = 0, currentDelay = 0, currentStat = new_StatsBatch,
               records = [], sendq = [], events = [], worker = False, goroutines = [],
               effects = [], woken = []\<rparr>)"

subsection \<open>The lifecycle: Start, Stop, sendStats\<close>

definition ErrAlreadyStarted :: string where
  "ErrAlreadyStarted = ''already started''"

definition ErrAlreadyStopped :: string where
  "ErrAlreadyStopped = ''already stopped''"

definition sendStats :: "'c batchProducer \<Rightarrow> 'c batchProducer" where
  "sendStats b =
     (if \<not> StatReceiver (config b) then b
      else let st = (currentStat b)\<lparr>StatBufferSize := int (length (records b))\<rparr>
           in b\<lparr>effects := effects b @ [Receive st], currentStat := new_StatsBatch\<rparr>)"

text \<open>
  \<open>Start\<close> launches \<open>run\<close> and waits on \<open>start\<close> until the worker enters its loop.
  \<open>Stop\<close> sends on \<open>stop\<close>; the worker takes the signal in its \<open>select\<close>, calls
  \<open>sendStats\<close>, answers on \<open>stop\<close> and returns. The first component is the error
  returned (\<open>None\<close> is nil).
\<close>

definition Start :: "'c batchProducer \<Rightarrow> string option \<times> 'c batchProducer" where
  "Start b =
     (if running b then (Some ErrAlreadyStarted, b)
      else (None, b\<lparr>worker := True, running := True\<rparr>))"

definition Stop :: "'c batchProducer \<Rightarrow> string option \<times> 'c batchProducer" where
  "Stop b =
     (if \<not> running b then (Some ErrAlreadyStopped, b)
      else (None, (sendStats b)\<lparr>worker := False, running := False\<rparr>))"

subsection \<open>The buffer\<close>

definition len_records :: "'c batchProducer \<Rightarrow> int" where
  "len_records b = int (length (records b))"

definition cap_records :: "'c batchProducer \<Rightarrow> int" where
  "cap_records b = BufferSize (config b)"

definition fill_ratio :: "'c batchProducer \<Rightarrow> float32" where
  "fill_ratio b = float32_div (float32_of_int (len_records b)) (float32_of_int (cap_records b))"

definition isBufferFullOrNearlyFull :: "'c batchProducer \<Rightarrow> bool" where
  "isBufferFullOrNearlyFull b = float32_ge (fill_ratio b) (float32_const (95 / 100))"

definition isBufferFull :: "'c batchProducer \<Rightarrow> bool" where
  "isBufferFull b = float32_ge (fill_ratio b) (float32_const (99 / 100))"

text \<open>
  A waiting sender whose value a receive has moved into the buffer goes on: \<open>Add\<close> returns
  nil, a goroutine is ready to run again.
\<close>

fun wake :: "Sender \<Rightarrow> 'c batchProducer \<Rightarrow> 'c batchProducer" where
  "wake AddCaller b = b\<lparr>woken := woken b @ [None]\<rparr>"
| "wake (Resume g) b = b\<lparr>goroutines := goroutines b @ [g]\<rparr>"

text \<open>
  \<open>receive n\<close> is \<open>n\<close> receives in a row. A receive takes the head of the buffer; when a
  sender is waiting, its value goes to the tail in the same step. \<open>takeRecordsFromBuffer\<close>
  asks for no more than the buffer holds, so the empty case is not reached
  (lemma \<open>receive_length\<close>).
\<close>

fun receive :: "nat \<Rightarrow> 'c batchProducer \<Rightarrow> batchRecord list \<times> 'c batchProducer" where
  "receive 0 b = ([], b)"
| "receive (Suc n) b =
     (case records b of
        [] \<Rightarrow> ([], b)
      | r # rest \<Rightarrow>
          let b1 = (case sendq b of
                      [] \<Rightarrow> b\<lparr>records := rest\<rparr>
                    | (v, s) # q \<Rightarrow> wake s (b\<lparr>records := rest @ [v], sendq := q\<rparr>));
              (rs, b2) = receive n b1
          in (r # rs, b2))"

definition takeRecordsFromBuffer ::
  "int \<Rightarrow> 'c batchProducer \<Rightarrow> (batchRecord list \<times> 'c batchProducer) result" where
  "takeRecordsFromBuffer batchSize b =
     (let bufferLen = len_records b;
          size = (if bufferLen \<ge> batchSize then batchSize else bufferLen)
      in if size < 0 then Panic ''makeslice: len out of range''
         else Ok (receive (nat size) b))"

definition recordsToInput :: "'c batchProducer \<Rightarrow> batchRecord list \<Rightarrow> PutRecordsInput" where
  "recordsToInput b recs =
     \<lparr>StreamName = streamName b,
      Records = map (\<lambda>rec. \<lparr>PartitionKey = partitionKey rec, Data = data rec\<rparr>) recs\<rparr>"

text \<open>A send on \<open>records\<close> goes through when the buffer has room; otherwise the sender waits.\<close>

definition has_room :: "'c batchProducer \<Rightarrow> bool" where
  "has_room b = (len_records b < cap_records b)"

subsection \<open>Add\<close>

datatype 'c AddOutcome = Returned "string option" "'c batchProducer" | Blocked "'c batchProducer"

definition Add :: "8 word list \<Rightarrow> string \<Rightarrow> 'c batchProducer \<Rightarrow> 'c AddOutcome" where
  "Add d key b =
     (if \<not> running b
      then Returned (Some ''Cannot call Add when BatchProducer is not running (to prevent the buffer filling up and Add blocking indefinitely).'') b
      else if isBufferFull b \<and> \<not> AddBlocksWhenBufferFull (config b)
      then Returned (Some ''Buffer is full'') b
      else let r = \<lparr>data = d, partitionKey = key, sendAttempts = 0\<rparr>
           in if has_room b then Returned None (b\<lparr>records := records b @ [r]\<rparr>)
              else Blocked (b\<lparr>sendq := sendq b @ [(r, AddCaller)]\<rparr>))"

subsection \<open>The goroutines that return records to the buffer\<close>

fun returnRecordsToBuffer :: "batchRecord list \<Rightarrow> 'c batchProducer \<Rightarrow> 'c batchProducer" where
  "returnRecordsToBuffer [] b = b"
| "returnRecordsToBuffer (r # rs) b =
     (if has_room b then returnRecordsToBuffer rs (b\<lparr>records := records b @ [r]\<rparr>)
      else b\<lparr>sendq := sendq b @ [(r, Resume (ReturnRecords rs))]\<rparr>)"

text \<open>
  The loop of \<open>returnSomeFailedRecordsToBuffer\<close> over \<open>res.Records\<close>, at index \<open>i\<close> with
  the entries from \<open>i\<close> on. \<open>records[i]\<close> panics out of range; \<open>result.ErrorMessage\<close>
  panics on a nil entry and \<open>*result.ErrorCode\<close> on a nil code.
\<close>

fun someFailedLoop ::
  "PutRecordsResultEntry option list \<Rightarrow> nat \<Rightarrow> PutRecordsOutput \<Rightarrow> batchRecord list \<Rightarrow>
   'c batchProducer \<Rightarrow> 'c batchProducer result" where
  "someFailedLoop [] i res recs b = Ok b"
| "someFailedLoop (result # rest) i res recs b =
     (if length recs \<le> i then Panic ''index out of range''
      else
        let record = recs ! i
        in case result of
             None \<Rightarrow> Panic ''nil pointer dereference''
           | Some r \<Rightarrow>
               (case ErrorMessage r of
                  None \<Rightarrow> someFailedLoop rest (Suc i) res recs b
                | Some msg \<Rightarrow>
                    let record1 = record\<lparr>sendAttempts := sendAttempts record + 1\<rparr>;
                        b1 = b\<lparr>events := events b @ [newError msg]\<rparr>
                    in if sendAttempts record1 < MaxAttemptsPerRecord (config b1)
                       then (if has_room b1
                             then someFailedLoop rest (Suc i) res recs
                                    (b1\<lparr>records := records b1 @ [record1]\<rparr>)
                             else Ok (b1\<lparr>sendq := sendq b1 @
                                        [(record1, Resume (ReturnSomeFailed (Suc i) res recs))]\<rparr>))
                       else
                         let b2 = b1\<lparr>currentStat := (currentStat b1)
                                    \<lparr>RecordsDroppedSinceLastStat :=
                                       RecordsDroppedSinceLastStat (currentStat b1) + 1\<rparr>\<rparr>
                         in (case ErrorCode r of
                               None \<Rightarrow> Panic ''nil pointer dereference''
                             | Some code \<Rightarrow>
                                 someFailedLoop rest (Suc i) res recs
                                   (b2\<lparr>effects := effects b2 @
                                      [ErrorLog (DroppingFailedRecord (sendAttempts record1) code msg)]\<rparr>))))"

definition returnSomeFailedRecordsToBuffer ::
  "PutRecordsOutput \<Rightarrow> batchRecord list \<Rightarrow> 'c batchProducer \<Rightarrow> 'c batchProducer result" where
  "returnSomeFailedRecordsToBuffer res recs b = someFailedLoop (ResultRecords res) 0 res recs b"

fun runGoroutine :: "Goroutine \<Rightarrow> 'c batchProducer \<Rightarrow> 'c batchProducer result" where
  "runGoroutine (ReturnRecords rs) b = Ok (returnRecordsToBuffer rs b)"
| "runGoroutine (ReturnSomeFailed i res recs) b =
     someFailedLoop (drop i (ResultRecords res)) i res recs b"

text \<open>
  The scheduler lets every goroutine that is ready run, each until it is done or waits at a
  send. A panic in a goroutine ends the program.
\<close>

fun runAll :: "Goroutine list \<Rightarrow> 'c batchProducer \<Rightarrow> 'c batchProducer result" where
  "runAll [] b = Ok b"
| "runAll (g # gs) b =
     (case runGoroutine g b of
        Ok b1 \<Rightarrow> runAll gs b1
      | Err e \<Rightarrow> Err e
      | Panic p \<Rightarrow> Panic p)"

definition runGoroutines :: "'c batchProducer \<Rightarrow> 'c batchProducer result" where
  "runGoroutines b = runAll (goroutines b) (b\<lparr>goroutines := []\<rparr>)"

subsection \<open>sendBatch\<close>

definition backoff :: "'c batchProducer \<Rightarrow> 'c batchProducer" where
  "backoff b =
     (let b1 = (if consecutiveErrors b = 1 then b\<lparr>currentDelay := 50 * Millisecond\<rparr>
                else if consecutiveErrors b > 1 then b\<lparr>currentDelay := currentDelay b * 2\<rparr>
                else b)
      in if sint (currentDelay b1) > 0
         then b1\<lparr>effects := effects b1 @
                  [Debug (Delaying (currentDelay b1) (consecutiveErrors b1)),
                   Sleep (currentDelay b1)]\<rparr>
         else b1)"

definition afterError ::
  "string \<Rightarrow> batchRecord list \<Rightarrow> 'c batchProducer \<Rightarrow> int \<times> 'c batchProducer" where
  "afterError e recs b =
     (let b1 = b\<lparr>consecutiveErrors := consecutiveErrors b + 1,
                  currentStat := (currentStat b)
                    \<lparr>KinesisErrorsSinceLastStat :=
                       KinesisErrorsSinceLastStat (currentStat b) + 1\<rparr>,
                  events := events b @ [newError e]\<rparr>
      in if consecutiveErrors b1 \<ge> 5 \<and> isBufferFullOrNearlyFull b1
         then (0, b1\<lparr>effects := effects b1 @
                       [ErrorLog (Dropping (length recs) (consecutiveErrors b1))]\<rparr>)
         else (0, b1\<lparr>effects := effects b1 @
                       [Debug (Returning (length recs) (consecutiveErrors b1))],
                     goroutines := goroutines b1 @ [ReturnRecords recs]\<rparr>))"

definition afterSuccess ::
  "PutRecordsOutput \<Rightarrow> batchRecord list \<Rightarrow> 'c batchProducer \<Rightarrow> int \<times> 'c batchProducer" where
  "afterSuccess res recs b =
     (let b1 = b\<lparr>consecutiveErrors := 0, currentDelay := 0\<rparr>;
          (succeeded, b2) =
            (case FailedRecordCount res of
               None \<Rightarrow>
                 (int (length recs),
                  b1\<lparr>effects := effects b1 @ [Debug (Succeeded (int (length recs)))]\<rparr>)
             | Some failed \<Rightarrow>
                 (int (length recs) - failed,
                  b1\<lparr>effects := effects b1 @
                       [Debug (PartialSuccess (int (length recs) - failed)
                                 (FailedRecordCount res))],
                     goroutines := goroutines b1 @ [ReturnSomeFailed 0 res recs]\<rparr>))
      in (succeeded,
          b2\<lparr>currentStat := (currentStat b2)
               \<lparr>RecordsSentSuccessfullySinceLastStat :=
                  RecordsSentSuccessfullySinceLastStat (currentStat b2) + succeeded\<rparr>\<rparr>))"

text \<open>
  \<open>sendBatch\<close>: nothing on an empty buffer; otherwise the backoff, the take, the call of
  the sink, and the two ways on. A nil response with a nil error is dereferenced.
\<close>

definition sendBatch ::
  "'c PutRecords \<Rightarrow> int \<Rightarrow> 'c batchProducer \<Rightarrow> (int \<times> 'c batchProducer) result" where
  "sendBatch put batchSize b =
     (if length (records b) = 0 then Ok (0, b)
      else
        case takeRecordsFromBuffer batchSize (backoff b) of
          Panic p \<Rightarrow> Panic p
        | Err e \<Rightarrow> Err e
        | Ok (recs, b1) \<Rightarrow>
            let input = recordsToInput b1 recs;
                ((res, err), cl) = put (client b1) input;
                b2 = b1\<lparr>client := cl, effects := effects b1 @ [PutRecordsCall input]\<rparr>
            in (case err of
                  Some e \<Rightarrow> Ok (afterError e recs b2)
                | None \<Rightarrow>
                    (case res of
                       None \<Rightarrow> Panic ''nil pointer dereference''
                     | Some out \<Rightarrow> Ok (afterSuccess out recs b2))))"


subsection \<open>The worker loop\<close>

text \<open>
  One pass of the \<open>select\<close> in \<open>run\<close>. Which case is ready is given from outside: a tick
  of the flush ticker, a tick of the stat ticker, or none (the \<open>default\<close> case). A ticker
  exists only under the condition \<open>run\<close> creates it. The stop case is part of \<open>Stop\<close>.
\<close>

datatype Ready = FlushTick | StatTick | NoneReady

fun can_fire :: "Ready \<Rightarrow> 'c batchProducer \<Rightarrow> bool" where
  "can_fire FlushTick b = (sint (FlushInterval (config b)) > 0)"
| "can_fire StatTick b = (StatReceiver (config b) \<and> sint (StatInterval (config b)) > 0)"
| "can_fire NoneReady b = True"

fun dropCount :: "(int \<times> 'c batchProducer) result \<Rightarrow> 'c batchProducer result" where
  "dropCount (Ok (n, b)) = Ok b"
| "dropCount (Err e) = Err e"
| "dropCount (Panic p) = Panic p"

fun run_iteration :: "'c PutRecords \<Rightarrow> Ready \<Rightarrow> 'c batchProducer \<Rightarrow> 'c batchProducer result" where
  "run_iteration put FlushTick b = dropCount (sendBatch put (BatchSize (config b)) b)"
| "run_iteration put StatTick b = Ok (sendStats b)"
| "run_iteration put NoneReady b =
     (if len_records b \<ge> BatchSize (config b)
      then dropCount (sendBatch put (BatchSize (config b)) b)
      else Ok (b\<lparr>effects := effects b @ [Sleep (1 * Millisecond)]\<rparr>))"

subsection \<open>Flush\<close>

text \<open>
  The loop of \<open>Flush\<close>, with fuel: \<open>None\<close> when the fuel runs out. \<open>fired i\<close> says
  whether the timer's channel is ready at the \<open>i\<close>-th \<open>select\<close>, and \<open>sched i\<close> whether
  the scheduler has let the goroutines that were ready run before the \<open>i\<close>-th test of the
  loop condition. The result is \<open>timedOut\<close>, \<open>sent\<close> and the producer.
\<close>

fun drain ::
  "nat \<Rightarrow> 'c PutRecords \<Rightarrow> (nat \<Rightarrow> bool) \<Rightarrow> (nat \<Rightarrow> bool) \<Rightarrow> nat \<Rightarrow> int \<Rightarrow>
   'c batchProducer \<Rightarrow> (bool \<times> int \<times> 'c batchProducer) result option" where
  "drain 0 put fired sched i sent b = None"
| "drain (Suc fuel) put fired sched i sent b =
     (case (if sched i then runGoroutines b else Ok b) of
        Panic p \<Rightarrow> Some (Panic p)
      | Err e \<Rightarrow> Some (Err e)
      | Ok b0 \<Rightarrow>
          if length (records b0) > 0
          then (if fired i then Some (Ok (True, sent, b0))
                else (case sendBatch put MaxKinesisBatchSize b0 of
                        Panic p \<Rightarrow> Some (Panic p)
                      | Err e \<Rightarrow> Some (Err e)
                      | Ok (n, b1) \<Rightarrow> drain fuel put fired sched (Suc i) (sent + n) b1))
          else Some (Ok (False, sent, b0)))"

text \<open>
  \<open>Flush\<close> calls \<open>Stop\<close> and drops its error. With a timeout of 0 the timer is stopped
  and never fires. The result is \<open>sent\<close>, \<open>remaining\<close>, the error and the producer.
\<close>

definition Flush ::
  "nat \<Rightarrow> 'c PutRecords \<Rightarrow> (nat \<Rightarrow> bool) \<Rightarrow> (nat \<Rightarrow> bool) \<Rightarrow> Duration \<Rightarrow> bool \<Rightarrow>
   'c batchProducer \<Rightarrow> (int \<times> int \<times> string option \<times> 'c batchProducer) result option" where
  "Flush fuel put fired sched timeout sendStatsFlag b =
     (let b1 = snd (Stop b);
          timer = (if timeout = 0 then (\<lambda>i. False) else fired)
      in case drain fuel put timer sched 0 0 b1 of
           None \<Rightarrow> None
         | Some (Panic p) \<Rightarrow> Some (Panic p)
         | Some (Err e) \<Rightarrow> Some (Err e)
         | Some (Ok (timedOut, sent, b2)) \<Rightarrow>
             let b3 = (if \<not> timedOut \<and> sendStatsFlag then sendStats b2 else b2)
             in Some (Ok (sent, len_records b3, None, b3)))"

subsection \<open>Executions\<close>

text \<open>
  The calls of the application and the moves of the producer's own goroutines, one after
  the other: a call of the interface, a pass of the worker's loop (only while the worker is
  alive), or the scheduler running the goroutines that are ready.
\<close>

datatype Move =
    CallStart
  | CallStop
  | CallAdd "8 word list" string
  | CallFlush Duration bool
  | WorkerPass Ready
  | Scheduler

inductive step :: "'c PutRecords \<Rightarrow> 'c batchProducer \<Rightarrow> Move \<Rightarrow> 'c batchProducer \<Rightarrow> bool"
  for put :: "'c PutRecords" where
  start: "Start b = (e, b') \<Longrightarrow> step put b CallStart b'"
| stop: "Stop b = (e, b') \<Longrightarrow> step put b CallStop b'"
| add_returns: "Add d key b = Returned e b' \<Longrightarrow> step put b (CallAdd d key) b'"
| add_blocks: "Add d key b = Blocked b' \<Longrightarrow> step put b (CallAdd d key) b'"
| flush: "Flush fuel put fired sched timeout ss b = Some (Ok (sent, remaining, err, b'))
          \<Longrightarrow> step put b (CallFlush timeout ss) b'"
| worker_pass: "worker b \<Longrightarrow> can_fire r b \<Longrightarrow> run_iteration put r b = Ok b'
          \<Longrightarrow> step put b (WorkerPass r) b'"
| scheduler: "runGoroutines b = Ok b' \<Longrightarrow> step put b Scheduler b'"

inductive reachable :: "'c PutRecords \<Rightarrow> 'c batchProducer \<Rightarrow> bool"
  for put :: "'c PutRecords" where
  init: "New cl name cfg = Ok b \<Longrightarrow> reachable put b"
| move: "reachable put b \<Longrightarrow> step put b m b' \<Longrightarrow> reachable put b'"

text \<open>The inputs of the sink calls in a trace, in order.\<close>

fun sink_calls :: "Effect list \<Rightarrow> PutRecordsInput list" where
  "sink_calls [] = []"
| "sink_calls (PutRecordsCall inp # es) = inp # sink_calls es"
| "sink_calls (_ # es) = sink_calls es"

subsection \<open>Runs of consecutive failures\<close>

text \<open>
  \<open>consecutive_failures put n b\<close>: the producer \<open>b\<close> has seen exactly \<open>n\<close> whole-batch
  errors in a row since \<open>consecutiveErrors\<close> and \<open>currentDelay\<close> were last 0 (as \<open>New\<close> and
  every whole-batch success leave them); in between, anything may have happened that leaves
  the two fields alone. \<open>stored_delay n\<close> is what \<open>currentDelay\<close> then holds.
\<close>

definition stored_delay :: "nat \<Rightarrow> Duration" where
  "stored_delay n = (if n \<le> 1 then 0 else 50 * Millisecond * 2 ^ (n - 2))"

inductive consecutive_failures :: "'c PutRecords \<Rightarrow> nat \<Rightarrow> 'c batchProducer \<Rightarrow> bool"
  for put :: "'c PutRecords" where
  reset: "consecutiveErrors b = 0 \<Longrightarrow> currentDelay b = 0 \<Longrightarrow> consecutive_failures put 0 b"
| failure: "consecutive_failures put n b \<Longrightarrow> records b \<noteq> [] \<Longrightarrow>
            takeRecordsFromBuffer k (backoff b) = Ok (recs, b1) \<Longrightarrow>
            put (client b1) (recordsToInput b1 recs) = ((res, Some e), cl) \<Longrightarrow>
            sendBatch put k b = Ok (m, b') \<Longrightarrow> consecutive_failures put (Suc n) b'"
| other: "consecutive_failures put n b \<Longrightarrow> consecutiveErrors b' = consecutiveErrors b \<Longrightarrow>
          currentDelay b' = currentDelay b \<Longrightarrow> consecutive_failures put n b'"

subsection \<open>The records that a result vector reports as failed\<close>

text \<open>
  The reading of a result vector that the claims use: \<open>failed_records\<close> pairs every
  record whose entry carries an error message with that message, the attempts counter
  already incremented; \<open>retried\<close> are those still under the maximum and \<open>exhausted\<close> the
  others. A vector is \<open>well_formed\<close> for a batch when it is no longer than the batch, has no
  nil entry, and every entry with an error message has an error code.
\<close>

definition failed_records ::
  "batchRecord list \<Rightarrow> PutRecordsResultEntry option list \<Rightarrow> (batchRecord \<times> string) list" where
  "failed_records recs results =
     List.map_filter
       (\<lambda>(r, res). case res of
            None \<Rightarrow> None
          | Some e \<Rightarrow> (case ErrorMessage e of
                        None \<Rightarrow> None
                      | Some msg \<Rightarrow> Some (r\<lparr>sendAttempts := sendAttempts r + 1\<rparr>, msg)))
       (zip recs results)"




subsection \<open>What a drain reports\<close>

text \<open>
  \<open>reported\<close> adds up the numbers of records that the dispatches in a trace logged as
  sent (the \<open>succeeded\<close> of \<open>sendBatch\<close>). \<open>chunks n\<close> cuts a list into pieces of \<open>n\<close>, the
  last one shorter. A sink \<open>always_succeeds\<close> when every call returns no error and a result
  that reports no failed record: a nil or zero count, and a result vector no longer than the
  request with no error message. A goroutine is \<open>quiet\<close> when it has nothing to send back.
\<close>

fun succeeded_of :: "Effect \<Rightarrow> int" where
  "succeeded_of (Debug (Succeeded n)) = n"
| "succeeded_of (Debug (PartialSuccess n c)) = n"
| "succeeded_of _ = 0"

definition reported :: "Effect list \<Rightarrow> int" where
  "reported es = sum_list (map succeeded_of es)"

function chunks :: "nat \<Rightarrow> 'a list \<Rightarrow> 'a list list" where
  "chunks n xs = (if n = 0 \<or> xs = [] then [] else take n xs # chunks n (drop n xs))"
  by pat_completeness auto
termination
  by (relation "measure (\<lambda>(n, xs). length xs)") auto

declare chunks.simps [simp del]

definition all_delivered :: "PutRecordsInput \<Rightarrow> PutRecordsOutput \<Rightarrow> bool" where
  "all_delivered inp out \<longleftrightarrow>
     (FailedRecordCount out = None \<or> FailedRecordCount out = Some 0) \<and>
     length (ResultRecords out) \<le> length (Records inp) \<and>
     (\<forall>res \<in> set (ResultRecords out). \<exists>e. res = Some e \<and> ErrorMessage e = None)"

definition always_succeeds :: "'c PutRecords \<Rightarrow> bool" where
  "always_succeeds put \<longleftrightarrow>
     (\<forall>c inp. \<exists>out c'. put c inp = ((Some out, None), c') \<and> all_delivered inp out)"

fun quiet :: "Goroutine \<Rightarrow> bool" where
  "quiet (ReturnRecords rs) = (rs = [])"
| "quiet (ReturnSomeFailed i out recs) =
     (i = 0 \<and> length (ResultRecords out) \<le> length recs \<and>
      (\<forall>res \<in> set (ResultRecords out). \<exists>e. res = Some e \<and> ErrorMessage e = None))"

subsection \<open>What only Start and Stop change\<close>

text \<open>
  \<open>same_lifecycle b b'\<close>: from \<open>b\<close> to \<open>b'\<close> the flag \<open>running\<close> and the life of the
  worker are unchanged, and the \<open>Add\<close> calls released in between have returned nil.
\<close>

definition same_lifecycle :: "'c batchProducer \<Rightarrow> 'c batchProducer \<Rightarrow> bool" where
  "same_lifecycle b b' \<longleftrightarrow>
     running b' = running b \<and> worker b' = worker b \<and>
     set (woken b') \<subseteq> insert None (set (woken b))"

section \<open>Concrete configurations and states\<close>

definition DefaultConfig :: Config where
  "DefaultConfig =
     \<lparr>AddBlocksWhenBufferFull = False, BatchSize = 10, BufferSize = 10000,
      FlushInterval = 1 * Second, MaxAttemptsPerRecord = 10, StatInterval = 1 * Second,
      StatReceiver = False\<rparr>"


definition fresh :: "Config \<Rightarrow> unit batchProducer" where
  "fresh cfg =
     \<lparr>client = (), streamName = ''stream'', config = cfg, running = False,
      consecutiveErrors = 0, currentDelay = 0, currentStat = new_StatsBatch,
      records = [], sendq = [], events = [], worker = False, goroutines = [],
      effects = [], woken = []\<rparr>"

definition rec0 :: batchRecord where
  "rec0 = \<lparr>data = [1], partitionKey = ''a'', sendAttempts = 0\<rparr>"

definition rec1 :: batchRecord where
  "rec1 = \<lparr>data = [2], partitionKey = ''b'', sendAttempts = 1\<rparr>"

definition failing_sink :: "unit PutRecords" where
  "failing_sink c inp = ((None, Some ''boom''), c)"

definition cfg_two :: Config where
  "cfg_two = DefaultConfig\<lparr>BatchSize := 1, BufferSize := 2, MaxAttemptsPerRecord := 2\<rparr>"

definition b_two :: "unit batchProducer" where
  "b_two = (fresh cfg_two)\<lparr>running := True, worker := True, records := [rec0, rec1]\<rparr>"

definition cfg_block :: Config where
  "cfg_block = DefaultConfig\<lparr>AddBlocksWhenBufferFull := True, BatchSize := 2, BufferSize := 1\<rparr>"

definition b_block :: "unit batchProducer" where
  "b_block = (fresh cfg_block)\<lparr>running := True, worker := True, records := [rec0]\<rparr>"

definition rec2 :: batchRecord where
  "rec2 = \<lparr>data = [3], partitionKey = ''c'', sendAttempts = 0\<rparr>"

definition ok_sink :: "unit PutRecords" where
  "ok_sink c inp = ((Some \<lparr>FailedRecordCount = None, ResultRecords = []\<rparr>, None), c)"

definition after_failures :: "nat \<Rightarrow> unit batchProducer" where
  "after_failures n = b_two\<lparr>consecutiveErrors := int n, currentDelay := stored_delay n\<rparr>"





definition nil_code :: PutRecordsOutput where
  "nil_code =
     \<lparr>FailedRecordCount = Some 1,
      ResultRecords = [Some \<lparr>ErrorCode = None, ErrorMessage = Some ''m''\<rparr>]\<rparr>"

definition cfg_twenty :: Config where
  "cfg_twenty = DefaultConfig\<lparr>BatchSize := 1, BufferSize := 20, StatReceiver := True\<rparr>"

definition b_drop :: "unit batchProducer" where
  "b_drop = (fresh cfg_twenty)\<lparr>running := True, worker := True, records := replicate 20 rec0,
               consecutiveErrors := 4, currentDelay := stored_delay 4\<rparr>"

definition nil_code_sink :: "unit PutRecords" where
  "nil_code_sink c inp = ((Some nil_code, None), c)"

definition b_last_attempt :: "unit batchProducer" where
  "b_last_attempt = b_two\<lparr>records := [rec1]\<rparr>"

definition started :: "unit batchProducer" where
  "started = (fresh cfg_two)\<lparr>worker := True, running := True\<rparr>"

definition loaded :: "unit batchProducer" where
  "loaded = started\<lparr>records := [rec0]\<rparr>"

definition stopped :: "unit batchProducer" where
  "stopped = loaded\<lparr>worker := False, running := False\<rparr>"

definition waiting :: "unit batchProducer" where
  "waiting = b_block\<lparr>sendq := [(rec2, AddCaller)]\<rparr>"

definition halted :: "unit batchProducer" where
  "halted = waiting\<lparr>worker := False, running := False\<rparr>"


section \<open>The float32 fill level tests\<close>

text \<open>
  Rounding to nearest with ties to even, the binade of a quotient, and what the two
  comparisons of the source mean for the lengths: up to a capacity of 400000 they are the
  exact tests for 95 and 99 percent.
\<close>

lemma rhe_of_int: "round_half_even (of_int m) = m"
  by (simp add: round_half_even_def)

lemma rhe_range:
  fixes y :: rat
  shows "\<lfloor>y\<rfloor> \<le> round_half_even y" "round_half_even y \<le> \<lfloor>y\<rfloor> + 1"
  by (simp_all add: round_half_even_def Let_def)

lemma rhe_ge_odd:
  fixes y :: rat
  assumes "odd k"
  shows "k \<le> round_half_even y \<longleftrightarrow> of_int k - 1 / 2 < y"
proof -
  define f where "f = \<lfloor>y\<rfloor>"
  have fl: "of_int f \<le> y" "y < of_int f + 1"
    unfolding f_def by linarith+
  consider "k \<le> f" | "k = f + 1" | "f + 2 \<le> k" by linarith
  then show ?thesis
  proof cases
    case 1
    then have "(of_int k :: rat) \<le> of_int f" by simp
    with fl have "of_int k - 1 / 2 < y" by linarith
    moreover from 1 rhe_range(1) [of y] have "k \<le> round_half_even y"
      by (simp add: f_def)
    ultimately show ?thesis by simp
  next
    case 2
    with assms have ev: "even f" by simp
    have k: "(of_int k :: rat) = of_int f + 1" using 2 by simp
    show ?thesis
      using ev fl unfolding k 2 round_half_even_def Let_def f_def [symmetric]
      by (auto; linarith)
  next
    case 3
    then have "(of_int f :: rat) + 2 \<le> of_int k"
      by (metis of_int_le_iff of_int_add of_int_numeral)
    with fl have "\<not> of_int k - 1 / 2 < y" by linarith
    moreover from 3 rhe_range(2) [of y] have "\<not> k \<le> round_half_even y"
      by (simp add: f_def)
    ultimately show ?thesis by simp
  qed
qed

lemma rhe_ge_even:
  fixes y :: rat
  assumes "even k"
  shows "k \<le> round_half_even y \<longleftrightarrow> of_int k - 1 / 2 \<le> y"
proof -
  define f where "f = \<lfloor>y\<rfloor>"
  have fl: "of_int f \<le> y" "y < of_int f + 1"
    unfolding f_def by linarith+
  consider "k \<le> f" | "k = f + 1" | "f + 2 \<le> k" by linarith
  then show ?thesis
  proof cases
    case 1
    then have "(of_int k :: rat) \<le> of_int f" by simp
    with fl have "of_int k - 1 / 2 \<le> y" by linarith
    moreover from 1 rhe_range(1) [of y] have "k \<le> round_half_even y"
      by (simp add: f_def)
    ultimately show ?thesis by simp
  next
    case 2
    with assms have ev: "odd f" by simp
    have k: "(of_int k :: rat) = of_int f + 1" using 2 by simp
    show ?thesis
      using ev fl unfolding k 2 round_half_even_def Let_def f_def [symmetric]
      by (auto; linarith)
  next
    case 3
    then have "(of_int f :: rat) + 2 \<le> of_int k"
      by (metis of_int_le_iff of_int_add of_int_numeral)
    with fl have "\<not> of_int k - 1 / 2 \<le> y" by linarith
    moreover from 3 rhe_range(2) [of y] have "\<not> k \<le> round_half_even y"
      by (simp add: f_def)
    ultimately show ?thesis by simp
  qed
qed

lemma rhe_le:
  fixes y :: rat
  assumes "y \<le> of_int n"
  shows "round_half_even y \<le> n"
proof -
  have "round_half_even (of_int n) = n" by (rule rhe_of_int)
  show ?thesis
  proof (cases "y = of_int n")
    case True
    then show ?thesis by (simp add: rhe_of_int)
  next
    case False
    with assms have "y < of_int n" by simp
    then have "\<lfloor>y\<rfloor> < n" by (simp add: floor_less_iff)
    with rhe_range(2) [of y] show ?thesis by linarith
  qed
qed

lemma rhe_ge:
  fixes y :: rat
  assumes "of_int n \<le> y"
  shows "n \<le> round_half_even y"
proof -
  from assms have "n \<le> \<lfloor>y\<rfloor>" by (simp add: le_floor_iff)
  with rhe_range(1) [of y] show ?thesis by linarith
qed

lemma expo2_bounds:
  assumes "0 < x"
  shows "power_int 2 (expo2 x) \<le> x \<and> x < power_int 2 (expo2 x + 1)"
proof -
  obtain a b where q: "quotient_of x = (a, b)" by force
  have b: "0 < b" using quotient_of_denom_pos [OF q] .
  have x: "x = of_int a / of_int b" using quotient_of_div [OF q] .
  have a: "0 < a" using assms b unfolding x by (simp add: zero_less_divide_iff)
  define la where "la = floorlog 2 (nat a)"
  define lb where "lb = floorlog 2 (nat b)"
  have na: "2 ^ (la - 1) \<le> nat a" "nat a < 2 ^ la"
    using floorlog_bounds [of "nat a" 2] a by (simp_all add: la_def)
  have nb: "2 ^ (lb - 1) \<le> nat b" "nat b < 2 ^ lb"
    using floorlog_bounds [of "nat b" 2] b by (simp_all add: lb_def)
  have la: "1 \<le> la" using na(2) a by (cases la) auto
  have lb: "1 \<le> lb" using nb(2) b by (cases lb) auto
  have ra1: "(2::rat) ^ (la - 1) \<le> of_int a"
    using na(1) by auto
  have ra2: "of_int a < (2::rat) ^ la"
    using na(2) a by simp
  have rb1: "(2::rat) ^ (lb - 1) \<le> of_int b"
    using nb(1) by auto
  have rb2: "of_int b < (2::rat) ^ lb"
    using nb(2) b by simp
  have bpos: "(0::rat) < of_int b" using b by simp
  have apos: "(0::rat) < of_int a" using a by simp
  define d where "d = int la - int lb"
  have p1: "power_int (2::rat) (d + 1) = 2 ^ la / 2 ^ (lb - 1)"
  proof -
    have "d + 1 = int la - int (lb - 1)" using lb by (simp add: d_def of_nat_diff)
    then show ?thesis by (simp add: power_int_diff)
  qed
  have p2: "power_int (2::rat) (d - 1) = 2 ^ (la - 1) / 2 ^ lb"
  proof -
    have "d - 1 = int (la - 1) - int lb" using la by (simp add: d_def of_nat_diff)
    then show ?thesis by (simp add: power_int_diff)
  qed
  have "of_int a * (2::rat) ^ (lb - 1) \<le> of_int a * of_int b"
    using rb1 apos by (simp add: mult_left_mono)
  also have "\<dots> < 2 ^ la * of_int b"
    using ra2 bpos by (simp add: mult_strict_right_mono)
  finally have up: "x < power_int 2 (d + 1)"
    unfolding p1 x using bpos by (simp add: field_simps)
  have "(2::rat) ^ (la - 1) * of_int b \<le> of_int a * of_int b"
    using ra1 bpos by (simp add: mult_right_mono)
  also have "\<dots> < of_int a * 2 ^ lb"
    using rb2 apos by (simp add: mult_strict_left_mono)
  finally have low: "power_int 2 (d - 1) < x"
    unfolding p2 x using bpos by (simp add: field_simps)
  have e: "expo2 x = (if power_int 2 d \<le> x then d else d - 1)"
    by (simp add: expo2_def q la_def lb_def d_def)
  show ?thesis
    using up low unfolding e by auto
qed

lemma expo2_unique:
  assumes "0 < x" and "power_int 2 e \<le> x" and "x < power_int 2 (e + 1)"
  shows "expo2 x = e"
proof -
  from expo2_bounds [OF assms(1)]
  have b: "power_int 2 (expo2 x) \<le> x" "x < power_int 2 (expo2 x + 1)" by simp_all
  have "power_int (2::rat) e < power_int 2 (expo2 x + 1)" using assms(2) b(2) by simp
  then have 1: "e < expo2 x + 1"
    using power_int_increasing [of "expo2 x + 1" e "2::rat"] by (cases "e < expo2 x + 1") auto
  have "power_int (2::rat) (expo2 x) < power_int 2 (e + 1)" using assms(3) b(1) by simp
  then have 2: "expo2 x < e + 1"
    using power_int_increasing [of "e + 1" "expo2 x" "2::rat"] by (cases "expo2 x < e + 1") auto
  from 1 2 show ?thesis by simp
qed

lemma round32_half_to_one:
  assumes "1 / 2 \<le> x" and "x < 1"
  shows "round32 x = of_int (round_half_even (x * 16777216)) / 16777216"
proof -
  from assms have pos: "0 < x" by simp
  have "expo2 x = - 1"
    by (rule expo2_unique [OF pos]) (use assms in \<open>simp_all add: power_int_minus_divide\<close>)
  with pos show ?thesis
    by (simp add: round32_def power_int_minus_divide)
qed

lemma round32_ge_one:
  assumes "1 \<le> x"
  shows "1 \<le> round32 x"
proof -
  from assms have pos: "0 < x" by simp
  define e where "e = expo2 x"
  from expo2_bounds [OF pos] have b: "power_int 2 e \<le> x" "x < power_int 2 (e + 1)"
    by (simp_all add: e_def)
  have e0: "0 \<le> e"
    using power_int_increasing [of "e + 1" 0 "2::rat"] b(2) assms by (cases "0 \<le> e") auto
  have pp: "power_int (2::rat) e * power_int 2 (23 - e) = 8388608"
    by (simp flip: power_int_add)
  have "power_int 2 e * power_int 2 (23 - e) \<le> x * power_int (2::rat) (23 - e)"
    using b(1) by (intro mult_right_mono) simp_all
  then have "of_int 8388608 \<le> x * power_int (2::rat) (23 - e)"
    unfolding pp by simp
  then have "8388608 \<le> round_half_even (x * power_int 2 (23 - e))"
    by (rule rhe_ge)
  then have "(8388608::rat) \<le> of_int (round_half_even (x * power_int 2 (23 - e)))"
    by linarith
  then have 1: "8388608 * power_int (2::rat) (e - 23)
               \<le> of_int (round_half_even (x * power_int 2 (23 - e))) * power_int 2 (e - 23)"
    by (intro mult_right_mono) simp_all
  have 2: "8388608 * power_int (2::rat) (e - 23) = power_int 2 e"
  proof -
    have "power_int (2::rat) (23 + (e - 23)) = power_int 2 23 * power_int 2 (e - 23)"
      by (rule power_int_add) simp
    then show ?thesis by simp
  qed
  have 3: "1 \<le> power_int (2::rat) e"
    using e0 by simp
  have r: "round32 x = of_int (round_half_even (x * power_int 2 (23 - e))) * power_int 2 (e - 23)"
    using pos by (simp add: round32_def e_def Let_def)
  from 1 2 3 show ?thesis
    unfolding r by linarith
qed

lemma round32_le_half:
  assumes "x < 1 / 2"
  shows "round32 x \<le> 1 / 2"
proof (cases "x \<le> 0")
  case True
  then show ?thesis by (simp add: round32_def)
next
  case False
  then have pos: "0 < x" by simp
  define e where "e = expo2 x"
  from expo2_bounds [OF pos] have b: "power_int 2 e \<le> x" "x < power_int 2 (e + 1)"
    by (simp_all add: e_def)
  have "power_int (2::rat) e < power_int 2 (- 1)"
    using b(1) assms by (simp add: power_int_minus_divide)
  then have e1: "e + 1 \<le> - 1"
    using power_int_increasing [of "- 1" e "2::rat"] by (cases "e + 1 \<le> - 1") auto
  have pp: "power_int (2::rat) (e + 1) * power_int 2 (23 - e) = 16777216"
    by (simp flip: power_int_add)
  have "x * power_int (2::rat) (23 - e) \<le> power_int 2 (e + 1) * power_int 2 (23 - e)"
    using b(2) by (intro mult_right_mono) simp_all
  then have "x * power_int (2::rat) (23 - e) \<le> of_int 16777216"
    unfolding pp by simp
  then have "round_half_even (x * power_int 2 (23 - e)) \<le> 16777216"
    by (rule rhe_le)
  then have "of_int (round_half_even (x * power_int 2 (23 - e))) \<le> (16777216::rat)"
    by linarith
  then have 1: "of_int (round_half_even (x * power_int 2 (23 - e))) * power_int 2 (e - 23)
               \<le> 16777216 * power_int (2::rat) (e - 23)"
    by (intro mult_right_mono) simp_all
  have 2: "16777216 * power_int (2::rat) (e - 23) = power_int 2 (e + 1)"
  proof -
    have "power_int (2::rat) (24 + (e - 23)) = power_int 2 24 * power_int 2 (e - 23)"
      by (rule power_int_add) simp
    then show ?thesis by (simp add: add.commute)
  qed
  have "power_int (2::rat) (e + 1) \<le> power_int 2 (- 1)"
    using e1 by (intro power_int_increasing) simp_all
  then have 3: "power_int (2::rat) (e + 1) \<le> 1 / 2"
    by (simp add: power_int_minus_divide)
  have r: "round32 x = of_int (round_half_even (x * power_int 2 (23 - e))) * power_int 2 (e - 23)"
    using pos by (simp add: round32_def e_def Let_def)
  from 1 2 3 show ?thesis
    unfolding r by linarith
qed

lemma round32_ge_c95:
  "15938355 / 16777216 \<le> round32 x \<longleftrightarrow> 31876709 / 33554432 < x"
proof -
  consider "x < 1 / 2" | "1 / 2 \<le> x" "x < 1" | "1 \<le> x" by linarith
  then show ?thesis
  proof cases
    case 1
    with round32_le_half [OF 1] show ?thesis by simp
  next
    case 2
    have "15938355 / 16777216 \<le> round32 x \<longleftrightarrow>
          (of_int 15938355 :: rat) \<le> of_int (round_half_even (x * 16777216))"
      unfolding round32_half_to_one [OF 2] by simp
    also have "\<dots> \<longleftrightarrow> 15938355 \<le> round_half_even (x * 16777216)"
      by (simp only: of_int_le_iff)
    also have "\<dots> \<longleftrightarrow> of_int 15938355 - 1 / 2 < x * 16777216"
      by (rule rhe_ge_odd) simp
    also have "\<dots> \<longleftrightarrow> 31876709 / 33554432 < x"
      by (simp add: field_simps)
    finally show ?thesis .
  next
    case 3
    with round32_ge_one [OF 3] show ?thesis by simp
  qed
qed

lemma round32_ge_c99:
  "16609444 / 16777216 \<le> round32 x \<longleftrightarrow> 33218887 / 33554432 \<le> x"
proof -
  consider "x < 1 / 2" | "1 / 2 \<le> x" "x < 1" | "1 \<le> x" by linarith
  then show ?thesis
  proof cases
    case 1
    with round32_le_half [OF 1] show ?thesis by simp
  next
    case 2
    have "16609444 / 16777216 \<le> round32 x \<longleftrightarrow>
          (of_int 16609444 :: rat) \<le> of_int (round_half_even (x * 16777216))"
      unfolding round32_half_to_one [OF 2] by simp
    also have "\<dots> \<longleftrightarrow> 16609444 \<le> round_half_even (x * 16777216)"
      by (simp only: of_int_le_iff)
    also have "\<dots> \<longleftrightarrow> of_int 16609444 - 1 / 2 \<le> x * 16777216"
      by (rule rhe_ge_even) simp
    also have "\<dots> \<longleftrightarrow> 33218887 / 33554432 \<le> x"
      by (simp add: field_simps)
    finally show ?thesis .
  next
    case 3
    with round32_ge_one [OF 3] show ?thesis by simp
  qed
qed

lemma round32_c95: "round32 (95 / 100) = 15938355 / 16777216"
  by code_simp

lemma round32_c99: "round32 (99 / 100) = 16609444 / 16777216"
  by code_simp

lemma round32_of_int:
  assumes "0 \<le> n" and "n < 16777216"
  shows "round32 (of_int n) = of_int n"
proof (cases "n = 0")
  case True
  then show ?thesis by (simp add: round32_def)
next
  case False
  with assms have pos: "(0::rat) < of_int n" and n1: "(1::rat) \<le> of_int n" by simp_all
  define e where "e = expo2 (of_int n)"
  from expo2_bounds [OF pos]
  have b: "power_int 2 e \<le> (of_int n :: rat)" "(of_int n :: rat) < power_int 2 (e + 1)"
    by (simp_all add: e_def)
  have "power_int (2::rat) 0 < power_int 2 (e + 1)" using b(2) n1 by simp
  then have e0: "0 \<le> e"
    using power_int_increasing [of "e + 1" 0 "2::rat"] by (cases "0 \<le> e") auto
  have "(of_int n :: rat) < power_int 2 24" using assms(2) by simp
  with b(1) have "power_int (2::rat) e < power_int 2 24" by linarith
  then have e23: "e \<le> 23"
    using power_int_increasing [of 24 e "2::rat"] by (cases "e \<le> 23") auto
  have p: "power_int (2::rat) (23 - e) = of_int (2 ^ nat (23 - e))"
    using e23 by (simp add: power_int_nonneg_exp)
  have "round_half_even (of_int n * power_int 2 (23 - e)) = n * 2 ^ nat (23 - e)"
    unfolding p of_int_mult [symmetric] by (rule rhe_of_int)
  moreover have "power_int (2::rat) (23 - e) * power_int 2 (e - 23) = 1"
  proof -
    have "power_int (2::rat) ((23 - e) + (e - 23)) = power_int 2 (23 - e) * power_int 2 (e - 23)"
      by (rule power_int_add) simp
    then show ?thesis by simp
  qed
  ultimately have "of_int (round_half_even (of_int n * power_int 2 (23 - e))) * power_int (2::rat) (e - 23)
                     = of_int n"
    unfolding p by (simp add: mult.assoc)
  with pos show ?thesis
    by (simp add: round32_def e_def Let_def)
qed

lemma fill_ratio_exact:
  assumes "0 < cap_records b" and "cap_records b < 16777216" and "len_records b \<le> cap_records b"
  shows "fill_ratio b = Finite (round32 (of_int (len_records b) / of_int (cap_records b)))"
proof -
  have l0: "0 \<le> len_records b" by (simp add: len_records_def)
  from assms l0 have "round32 (of_int (len_records b)) = of_int (len_records b)"
    by (intro round32_of_int) simp_all
  moreover from assms have "round32 (of_int (cap_records b)) = of_int (cap_records b)"
    by (intro round32_of_int) simp_all
  ultimately show ?thesis
    using assms(1) by (simp add: fill_ratio_def float32_of_int_def)
qed

lemma nearly_full_iff_95_percent:
  assumes "0 < cap_records b" and "cap_records b \<le> 400000" and "len_records b \<le> cap_records b"
  shows "isBufferFullOrNearlyFull b \<longleftrightarrow> 95 * cap_records b \<le> 100 * len_records b"
proof -
  have cpos: "(0::rat) < of_int (cap_records b)" using assms(1) by simp
  have fr: "fill_ratio b = Finite (round32 (of_int (len_records b) / of_int (cap_records b)))"
    using assms by (intro fill_ratio_exact) simp_all
  have c: "float32_const (95 / 100) = Finite (15938355 / 16777216)"
    by (simp only: float32_const_def round32_c95)
  have "isBufferFullOrNearlyFull b \<longleftrightarrow>
        15938355 / 16777216 \<le> round32 (of_int (len_records b) / of_int (cap_records b))"
    unfolding isBufferFullOrNearlyFull_def fr c by (simp only: float32_ge.simps)
  also have "\<dots> \<longleftrightarrow>
        31876709 / 33554432 < (of_int (len_records b) :: rat) / of_int (cap_records b)"
    by (rule round32_ge_c95)
  also have "\<dots> \<longleftrightarrow> (31876709 :: rat) * of_int (cap_records b) < 33554432 * of_int (len_records b)"
    using cpos by (simp add: field_simps)
  also have "\<dots> \<longleftrightarrow> 31876709 * cap_records b < 33554432 * len_records b"
    by (metis of_int_less_iff of_int_mult of_int_numeral)
  also have "\<dots> \<longleftrightarrow> 19 * cap_records b \<le> 20 * len_records b"
  proof
    assume "31876709 * cap_records b < 33554432 * len_records b"
    with assms show "19 * cap_records b \<le> 20 * len_records b" by linarith
  next
    assume "19 * cap_records b \<le> 20 * len_records b"
    with assms show "31876709 * cap_records b < 33554432 * len_records b" by linarith
  qed
  also have "\<dots> \<longleftrightarrow> 95 * cap_records b \<le> 100 * len_records b"
    by linarith
  finally show ?thesis .
qed

lemma full_iff_99_percent:
  assumes "0 < cap_records b" and "cap_records b \<le> 400000" and "len_records b \<le> cap_records b"
  shows "isBufferFull b \<longleftrightarrow> 99 * cap_records b \<le> 100 * len_records b"
proof -
  have cpos: "(0::rat) < of_int (cap_records b)" using assms(1) by simp
  have fr: "fill_ratio b = Finite (round32 (of_int (len_records b) / of_int (cap_records b)))"
    using assms by (intro fill_ratio_exact) simp_all
  have c: "float32_const (99 / 100) = Finite (16609444 / 16777216)"
    by (simp only: float32_const_def round32_c99)
  have "isBufferFull b \<longleftrightarrow>
        16609444 / 16777216 \<le> round32 (of_int (len_records b) / of_int (cap_records b))"
    unfolding isBufferFull_def fr c by (simp only: float32_ge.simps)
  also have "\<dots> \<longleftrightarrow>
        33218887 / 33554432 \<le> (of_int (len_records b) :: rat) / of_int (cap_records b)"
    by (rule round32_ge_c99)
  also have "\<dots> \<longleftrightarrow> (33218887 :: rat) * of_int (cap_records b) \<le> 33554432 * of_int (len_records b)"
    using cpos by (simp add: field_simps)
  also have "\<dots> \<longleftrightarrow> 33218887 * cap_records b \<le> 33554432 * len_records b"
    by (metis of_int_le_iff of_int_mult of_int_numeral)
  also have "\<dots> \<longleftrightarrow> 99 * cap_records b \<le> 100 * len_records b"
  proof
    assume "33218887 * cap_records b \<le> 33554432 * len_records b"
    with assms show "99 * cap_records b \<le> 100 * len_records b" by linarith
  next
    assume "99 * cap_records b \<le> 100 * len_records b"
    with assms show "33218887 * cap_records b \<le> 33554432 * len_records b" by linarith
  qed
  finally show ?thesis .
qed

section \<open>Receiving from the buffer and dispatching\<close>

lemma wake_frame [simp]:
  "records (wake s b) = records b" "sendq (wake s b) = sendq b" "config (wake s b) = config b"
  "running (wake s b) = running b" "consecutiveErrors (wake s b) = consecutiveErrors b"
  "currentDelay (wake s b) = currentDelay b" "currentStat (wake s b) = currentStat b"
  "events (wake s b) = events b" "worker (wake s b) = worker b" "effects (wake s b) = effects b"
  "client (wake s b) = client b" "streamName (wake s b) = streamName b"
  by (cases s; simp)+

lemma receive_frame:
  "config (snd (receive n b)) = config b \<and> running (snd (receive n b)) = running b \<and>
   consecutiveErrors (snd (receive n b)) = consecutiveErrors b \<and>
   currentDelay (snd (receive n b)) = currentDelay b \<and>
   currentStat (snd (receive n b)) = currentStat b \<and>
   events (snd (receive n b)) = events b \<and> worker (snd (receive n b)) = worker b \<and>
   effects (snd (receive n b)) = effects b \<and> client (snd (receive n b)) = client b \<and>
   streamName (snd (receive n b)) = streamName b"
proof (induction n arbitrary: b)
  case 0
  show ?case by simp
next
  case (Suc n)
  show ?case
  proof (cases "records b")
    case Nil
    then show ?thesis by simp
  next
    case (Cons r rest)
    show ?thesis
    proof (cases "sendq b")
      case Nil
      with Cons Suc [of "b\<lparr>records := rest\<rparr>"] show ?thesis
        by (simp add: split_beta Let_def)
    next
      case (Cons vs q)
      obtain v s where vs: "vs = (v, s)" by (cases vs)
      from Cons vs \<open>records b = r # rest\<close>
        Suc [of "wake s (b\<lparr>records := rest @ [v], sendq := q\<rparr>)"]
      show ?thesis by (simp add: split_beta Let_def)
    qed
  qed
qed


lemma receive_no_senders:
  "sendq b = [] \<Longrightarrow> n \<le> length (records b) \<Longrightarrow>
   receive n b = (take n (records b), b\<lparr>records := drop n (records b)\<rparr>)"
proof (induction n arbitrary: b)
  case 0
  show ?case by simp
next
  case (Suc n)
  then obtain r rest where rr: "records b = r # rest" by (cases "records b") auto
  with Suc.prems have n: "n \<le> length rest" by simp
  from Suc.IH [of "b\<lparr>records := rest\<rparr>"] Suc.prems rr n show ?case
    by (simp add: split_beta Let_def)
qed

lemma backoff_frame [simp]:
  "records (backoff b) = records b" "sendq (backoff b) = sendq b"
  "config (backoff b) = config b" "running (backoff b) = running b"
  "consecutiveErrors (backoff b) = consecutiveErrors b"
  "currentStat (backoff b) = currentStat b" "events (backoff b) = events b"
  "worker (backoff b) = worker b" "goroutines (backoff b) = goroutines b"
  "client (backoff b) = client b" "streamName (backoff b) = streamName b"
  "woken (backoff b) = woken b"
  by (simp_all add: backoff_def Let_def)

lemma take_frame:
  assumes "takeRecordsFromBuffer k b = Ok (recs, b1)"
  shows "config b1 = config b" "running b1 = running b"
    "consecutiveErrors b1 = consecutiveErrors b" "currentDelay b1 = currentDelay b"
    "currentStat b1 = currentStat b" "events b1 = events b" "worker b1 = worker b"
    "effects b1 = effects b" "client b1 = client b" "streamName b1 = streamName b"
proof -
  from assms have "b1 = snd (receive (nat (if len_records b \<ge> k then k else len_records b)) b)"
    by (auto simp add: takeRecordsFromBuffer_def Let_def split: if_splits)
  then show "config b1 = config b" "running b1 = running b"
    "consecutiveErrors b1 = consecutiveErrors b" "currentDelay b1 = currentDelay b"
    "currentStat b1 = currentStat b" "events b1 = events b" "worker b1 = worker b"
    "effects b1 = effects b" "client b1 = client b" "streamName b1 = streamName b"
    using receive_frame by blast+
qed


lemma sendBatch_failure:
  assumes "records b \<noteq> []"
    and "takeRecordsFromBuffer k (backoff b) = Ok (recs, b1)"
    and "put (client b1) (recordsToInput b1 recs) = ((res, Some e), cl)"
  shows "sendBatch put k b =
           Ok (afterError e recs
                 (b1\<lparr>client := cl,
                      effects := effects b1 @ [PutRecordsCall (recordsToInput b1 recs)]\<rparr>))"
  using assms by (simp add: sendBatch_def Let_def)

lemma sendBatch_success:
  assumes "records b \<noteq> []"
    and "takeRecordsFromBuffer k (backoff b) = Ok (recs, b1)"
    and "put (client b1) (recordsToInput b1 recs) = ((Some out, None), cl)"
  shows "sendBatch put k b =
           Ok (afterSuccess out recs
                 (b1\<lparr>client := cl,
                      effects := effects b1 @ [PutRecordsCall (recordsToInput b1 recs)]\<rparr>))"
  using assms by (simp add: sendBatch_def Let_def)




section \<open>Construction\<close>

lemma sint_50ms: "sint (50 * Millisecond) = 50000000"
  by (simp add: Millisecond_def)

lemma sint_Second: "sint Second = 1000000000"
  by (simp add: Second_def Millisecond_def)





section \<open>Dispatch: a whole-batch failure\<close>


lemma backoff_b_two: "backoff b_two = b_two"
  by (simp add: backoff_def b_two_def fresh_def)

lemma take_b_two:
  "takeRecordsFromBuffer 1 b_two = Ok ([rec0], b_two\<lparr>records := [rec1]\<rparr>)"
  by (simp add: takeRecordsFromBuffer_def len_records_def b_two_def fresh_def Let_def)


section \<open>Add\<close>

text \<open>
  C7, as stated, fails where \<open>Add\<close> waits: with \<open>AddBlocksWhenBufferFull\<close> set and the
  buffer full, a running producer neither returns an error nor enqueues the record; the
  caller waits at the send and the buffer is as it was.
\<close>

lemma b_block_facts:
  "running b_block" "AddBlocksWhenBufferFull (config b_block)" "\<not> has_room b_block"
  by (simp_all add: b_block_def fresh_def cfg_block_def DefaultConfig_def has_room_def
      len_records_def cap_records_def)

theorem Add_blocks_on_full_buffer:
  "running b_block \<and> AddBlocksWhenBufferFull (config b_block) \<and>
   Add [3] ''c'' b_block = Blocked (b_block\<lparr>sendq := [(rec2, AddCaller)]\<rparr>) \<and>
   records (b_block\<lparr>sendq := [(rec2, AddCaller)]\<rparr>) = records b_block"
  using b_block_facts by (simp add: Add_def rec2_def) (simp add: b_block_def fresh_def)

text \<open>
  C7, amended: \<open>Add\<close> returns an error and leaves the producer as it is when the producer
  is not running, and the error \<open>Buffer is full\<close> when \<open>isBufferFull\<close> holds and
  \<open>AddBlocksWhenBufferFull\<close> is false. In every other case it sends one record with the
  given payload and partition key and 0 attempts: when the buffer has room the record is
  enqueued at the tail and nil is returned; when it has none the caller waits at the send.
  Up to a capacity of 400000 \<open>isBufferFull\<close> is the exact test for 99 percent.
\<close>

theorem Add_outcomes:
  "(\<not> running b \<longrightarrow>
      Add d key b = Returned (Some ''Cannot call Add when BatchProducer is not running (to prevent the buffer filling up and Add blocking indefinitely).'') b) \<and>
   (running b \<and> isBufferFull b \<and> \<not> AddBlocksWhenBufferFull (config b) \<longrightarrow>
      Add d key b = Returned (Some ''Buffer is full'') b) \<and>
   (running b \<and> (AddBlocksWhenBufferFull (config b) \<or> \<not> isBufferFull b) \<and> has_room b \<longrightarrow>
      Add d key b =
        Returned None
          (b\<lparr>records := records b @ [\<lparr>data = d, partitionKey = key, sendAttempts = 0\<rparr>]\<rparr>)) \<and>
   (running b \<and> (AddBlocksWhenBufferFull (config b) \<or> \<not> isBufferFull b) \<and> \<not> has_room b \<longrightarrow>
      Add d key b =
        Blocked
          (b\<lparr>sendq := sendq b @ [(\<lparr>data = d, partitionKey = key, sendAttempts = 0\<rparr>, AddCaller)]\<rparr>)) \<and>
   (0 < cap_records b \<and> cap_records b \<le> 400000 \<and> len_records b \<le> cap_records b \<longrightarrow>
      (isBufferFull b \<longleftrightarrow> 99 * cap_records b \<le> 100 * len_records b))"
proof -
  have pct: "isBufferFull b \<longleftrightarrow> 99 * cap_records b \<le> 100 * len_records b"
    if "0 < cap_records b \<and> cap_records b \<le> 400000 \<and> len_records b \<le> cap_records b"
    using that by (intro full_iff_99_percent) simp_all
  have cases: "(\<not> running b \<longrightarrow>
      Add d key b = Returned (Some ''Cannot call Add when BatchProducer is not running (to prevent the buffer filling up and Add blocking indefinitely).'') b) \<and>
   (running b \<and> isBufferFull b \<and> \<not> AddBlocksWhenBufferFull (config b) \<longrightarrow>
      Add d key b = Returned (Some ''Buffer is full'') b) \<and>
   (running b \<and> (AddBlocksWhenBufferFull (config b) \<or> \<not> isBufferFull b) \<and> has_room b \<longrightarrow>
      Add d key b =
        Returned None
          (b\<lparr>records := records b @ [\<lparr>data = d, partitionKey = key, sendAttempts = 0\<rparr>]\<rparr>)) \<and>
   (running b \<and> (AddBlocksWhenBufferFull (config b) \<or> \<not> isBufferFull b) \<and> \<not> has_room b \<longrightarrow>
      Add d key b =
        Blocked
          (b\<lparr>sendq := sendq b @ [(\<lparr>data = d, partitionKey = key, sendAttempts = 0\<rparr>, AddCaller)]\<rparr>))"
    by (auto simp add: Add_def Let_def)
  from cases pct show ?thesis by blast
qed

lemma b_two_facts:
  "running b_two" "\<not> AddBlocksWhenBufferFull (config b_two)"
  "cap_records b_two = 2" "len_records b_two = 2"
  by (simp_all add: b_two_def fresh_def cfg_two_def DefaultConfig_def len_records_def cap_records_def)

theorem Add_outcomes_witness:
  "\<not> running (fresh cfg_two) \<and>
   Add [3] ''c'' (fresh cfg_two) = Returned (Some ''Cannot call Add when BatchProducer is not running (to prevent the buffer filling up and Add blocking indefinitely).'') (fresh cfg_two) \<and>
   running b_two \<and> isBufferFull b_two \<and> \<not> AddBlocksWhenBufferFull (config b_two) \<and>
   Add [3] ''c'' b_two = Returned (Some ''Buffer is full'') b_two \<and>
   running (b_two\<lparr>records := [rec0]\<rparr>) \<and> \<not> isBufferFull (b_two\<lparr>records := [rec0]\<rparr>) \<and>
   has_room (b_two\<lparr>records := [rec0]\<rparr>) \<and>
   Add [3] ''c'' (b_two\<lparr>records := [rec0]\<rparr>) = Returned None (b_two\<lparr>records := [rec0, rec2]\<rparr>) \<and>
   running b_block \<and> AddBlocksWhenBufferFull (config b_block) \<and> \<not> has_room b_block \<and>
   Add [3] ''c'' b_block = Blocked (b_block\<lparr>sendq := [(rec2, AddCaller)]\<rparr>)"
proof -
  let ?one = "b_two\<lparr>records := [rec0]\<rparr>"
  have n: "\<not> running (fresh cfg_two)" by (simp add: fresh_def)
  have full: "isBufferFull b_two"
    using Add_outcomes [of b_two "[3]" "''c''"] b_two_facts by simp
  have one: "running ?one" "\<not> AddBlocksWhenBufferFull (config ?one)"
    "cap_records ?one = 2" "len_records ?one = 1"
    using b_two_facts by (simp_all add: len_records_def cap_records_def)
  have nfull: "\<not> isBufferFull ?one"
    using Add_outcomes [of ?one "[3]" "''c''"] one by simp
  have room: "has_room ?one" using one by (simp add: has_room_def)
  have sq: "sendq b_block = []" "records ?one = [rec0]"
    by (simp_all add: b_block_def fresh_def)
  from n full nfull room one b_two_facts b_block_facts sq
    Add_outcomes [of "fresh cfg_two" "[3]" "''c''"] Add_outcomes [of b_two "[3]" "''c''"]
    Add_outcomes [of ?one "[3]" "''c''"] Add_outcomes [of b_block "[3]" "''c''"]
  show ?thesis by (simp add: rec2_def)
qed

section \<open>Backoff\<close>

lemma sint_delay:
  assumes "n \<le> 37"
  shows "sint (50 * Millisecond * 2 ^ n :: Duration) = 50000000 * 2 ^ n"
proof -
  have le: "(2::int) ^ n \<le> 2 ^ 37" using assms by (intro power_increasing) simp_all
  have w: "(50 * Millisecond * 2 ^ n :: Duration) = word_of_int (50000000 * 2 ^ n)"
    by (simp add: Millisecond_def)
  have "sint (word_of_int (50000000 * 2 ^ n) :: Duration) = 50000000 * 2 ^ n"
    unfolding sint_sbintrunc'
  proof (rule signed_take_bit_int_eq_self)
    have "- (2 ^ (LENGTH(64) - 1)) \<le> (0::int)" by simp
    also have "(0::int) \<le> 50000000 * 2 ^ n" by simp
    finally show "- (2 ^ (LENGTH(64) - 1)) \<le> (50000000 * 2 ^ n :: int)" .
    from le show "(50000000 * 2 ^ n :: int) < 2 ^ (LENGTH(64) - 1)" by simp
  qed
  with w show ?thesis by simp
qed

lemma backoff_delay:
  "currentDelay (backoff b) =
     (if consecutiveErrors b = 1 then 50 * Millisecond
      else if consecutiveErrors b > 1 then currentDelay b * 2 else currentDelay b)"
  by (simp add: backoff_def Let_def)

lemma backoff_effects:
  "effects (backoff b) =
     (if sint (currentDelay (backoff b)) > 0
      then effects b @ [Debug (Delaying (currentDelay (backoff b)) (consecutiveErrors b)),
                        Sleep (currentDelay (backoff b))]
      else effects b)"
  by (simp add: backoff_def Let_def)

lemma afterError_frame:
  "consecutiveErrors (snd (afterError e recs b)) = consecutiveErrors b + 1"
  "currentDelay (snd (afterError e recs b)) = currentDelay b"
  "\<exists>l. effects (snd (afterError e recs b)) = effects b @ [l] \<and> (\<forall>d. l \<noteq> Sleep d)"
  by (simp_all add: afterError_def Let_def)

lemma afterSuccess_frame:
  "consecutiveErrors (snd (afterSuccess out recs b)) = 0"
  "currentDelay (snd (afterSuccess out recs b)) = 0"
  "\<exists>l. effects (snd (afterSuccess out recs b)) = effects b @ [l] \<and> (\<forall>d. l \<noteq> Sleep d)"
  by (simp_all add: afterSuccess_def Let_def split: option.split)

lemma sendBatch_failure_backoff:
  assumes "records b \<noteq> []"
    and "takeRecordsFromBuffer k (backoff b) = Ok (recs, b1)"
    and "put (client b1) (recordsToInput b1 recs) = ((res, Some e), cl)"
    and "sendBatch put k b = Ok (m, b')"
  shows "consecutiveErrors b' = consecutiveErrors b + 1"
    and "currentDelay b' = currentDelay (backoff b)"
proof -
  from sendBatch_failure [where put = put, OF assms(1-3)] assms(4)
  have b': "b' = snd (afterError e recs
                 (b1\<lparr>client := cl,
                      effects := effects b1 @ [PutRecordsCall (recordsToInput b1 recs)]\<rparr>))"
    by (metis result.inject(1) snd_conv)
  show "consecutiveErrors b' = consecutiveErrors b + 1"
    unfolding b' afterError_frame using take_frame(3) [OF assms(2)] by simp
  show "currentDelay b' = currentDelay (backoff b)"
    unfolding b' afterError_frame using take_frame(4) [OF assms(2)] by simp
qed

lemma stored_delay_step:
  "(if int n = 1 then 50 * Millisecond
    else if int n > 1 then stored_delay n * 2 else stored_delay n) = stored_delay (Suc n)"
proof -
  consider "n = 0" | "n = 1" | "2 \<le> n" by linarith
  then show ?thesis
  proof cases
    case 3
    then have "Suc n - 2 = Suc (n - 2)" by simp
    with 3 show ?thesis by (simp add: stored_delay_def)
  qed (simp_all add: stored_delay_def)
qed

lemma consecutive_failures_state:
  "consecutive_failures put n b \<Longrightarrow>
   consecutiveErrors b = int n \<and> currentDelay b = stored_delay n"
proof (induction rule: consecutive_failures.induct)
  case (reset b)
  then show ?case by (simp add: stored_delay_def)
next
  case (failure n b k recs b1 res e cl m b')
  from sendBatch_failure_backoff [where put = put, OF failure.hyps(2-5)] failure.IH
  show ?case
    by (simp add: backoff_delay stored_delay_step [symmetric])
next
  case (other n b b')
  then show ?case by simp
qed

lemma sendBatch_effects:
  assumes "records b \<noteq> []" and "sendBatch put k b = Ok (m, b')"
  shows "\<exists>inp l. effects b' = effects (backoff b) @ [PutRecordsCall inp, l] \<and> (\<forall>d. l \<noteq> Sleep d)"
proof -
  from assms obtain recs b1 where t: "takeRecordsFromBuffer k (backoff b) = Ok (recs, b1)"
    by (auto simp add: sendBatch_def split: result.splits)
  obtain res err cl where p: "put (client b1) (recordsToInput b1 recs) = ((res, err), cl)"
    by (metis prod.exhaust)
  let ?b2 = "b1\<lparr>client := cl, effects := effects b1 @ [PutRecordsCall (recordsToInput b1 recs)]\<rparr>"
  have e2: "effects ?b2 = effects (backoff b) @ [PutRecordsCall (recordsToInput b1 recs)]"
    using take_frame(8) [OF t] by simp
  show ?thesis
  proof (cases err)
    case (Some e)
    with assms t p have "Ok (m, b') = Ok (afterError e recs ?b2)"
      by (simp add: sendBatch_def Let_def)
    then have "b' = snd (afterError e recs ?b2)"
      by (metis result.inject(1) snd_conv)
    with afterError_frame(3) [of e recs ?b2] e2 show ?thesis by auto
  next
    case None
    with assms t p obtain out where "afterSuccess out recs ?b2 = (m, b')"
      by (auto simp add: sendBatch_def Let_def split: option.splits)
    then have "b' = snd (afterSuccess out recs ?b2)"
      by simp
    with afterSuccess_frame(3) [of out recs ?b2] e2 show ?thesis by auto
  qed
qed

lemma take_ex:
  assumes "0 \<le> k"
  shows "\<exists>recs b1. takeRecordsFromBuffer k b = Ok (recs, b1)"
proof -
  have "0 \<le> len_records b" by (simp add: len_records_def)
  with assms show ?thesis
    by (simp add: takeRecordsFromBuffer_def Let_def)
qed

lemma after_failures_run: "consecutive_failures failing_sink n (after_failures n)"
proof (induction n)
  case 0
  show ?case
    by (rule consecutive_failures.reset) (simp_all add: after_failures_def stored_delay_def)
next
  case (Suc n)
  let ?s = "after_failures n"
  have ne: "records ?s \<noteq> []"
    by (simp add: after_failures_def b_two_def)
  obtain recs b1 where t: "takeRecordsFromBuffer 1 (backoff ?s) = Ok (recs, b1)"
    using take_ex [of 1 "backoff ?s"] by auto
  have p: "failing_sink (client b1) (recordsToInput b1 recs) = ((None, Some ''boom''), client b1)"
    by (simp add: failing_sink_def)
  from sendBatch_failure [where put = failing_sink, OF ne t p]
  obtain m b' where sb: "sendBatch failing_sink 1 ?s = Ok (m, b')"
    by (metis prod.collapse)
  from consecutive_failures.failure [OF Suc.IH ne t p sb]
  have cf: "consecutive_failures failing_sink (Suc n) b'" .
  from consecutive_failures_state [OF cf]
  have "consecutiveErrors (after_failures (Suc n)) = consecutiveErrors b'"
    and "currentDelay (after_failures (Suc n)) = currentDelay b'"
    by (simp_all add: after_failures_def)
  with cf show ?case
    by (rule consecutive_failures.other)
qed

text \<open>
  C5, as stated, fails: \<open>currentDelay\<close> is an \<open>int64\<close>, and the doubling wraps. After 39
  consecutive errors the delay is \<open>50ms * 2^38\<close> modulo \<open>2^64\<close>, which is negative, and
  the next dispatch does not sleep at all.
\<close>

theorem backoff_wraps_at_39:
  "consecutive_failures failing_sink 39 (after_failures 39) \<and>
   records (after_failures 39) \<noteq> [] \<and>
   sint (currentDelay (backoff (after_failures 39))) < 0 \<and>
   (case sendBatch failing_sink 1 (after_failures 39) of
      Ok (m, b') \<Rightarrow>
        effects b' =
          [PutRecordsCall \<lparr>StreamName = ''stream'',
             Records = [\<lparr>PartitionKey = ''a'', Data = [1]\<rparr>]\<rparr>,
           Debug (Returning 1 40)]
    | Err e \<Rightarrow> False
    | Panic p \<Rightarrow> False)"
proof -
  have d: "currentDelay (backoff (after_failures 39)) = 13743895347200000000"
    by (simp add: backoff_delay after_failures_def stored_delay_def Millisecond_def)
  have s: "sint (13743895347200000000 :: Duration) < 0"
    by simp
  have bo: "backoff (after_failures 39) = (after_failures 39)\<lparr>currentDelay := 13743895347200000000\<rparr>"
    using s by (simp add: backoff_def Let_def after_failures_def stored_delay_def Millisecond_def)
  have nf: "\<not> isBufferFullOrNearlyFull b"
    if "records b = [rec1]" and "config b = cfg_two" for b :: "unit batchProducer"
  proof -
    have "cap_records b = 2" "len_records b = 1"
      using that by (simp_all add: cap_records_def len_records_def cfg_two_def DefaultConfig_def)
    then show ?thesis
      using nearly_full_iff_95_percent [of b] by simp
  qed
  have "sendBatch failing_sink 1 (after_failures 39) =
          Ok (afterError ''boom'' [rec0]
               ((after_failures 39)\<lparr>currentDelay := 13743895347200000000, records := [rec1],
                   effects := [PutRecordsCall \<lparr>StreamName = ''stream'',
                      Records = [\<lparr>PartitionKey = ''a'', Data = [1]\<rparr>]\<rparr>]\<rparr>))"
    unfolding sendBatch_def bo
    by (simp add: takeRecordsFromBuffer_def len_records_def Let_def failing_sink_def
        recordsToInput_def after_failures_def b_two_def fresh_def rec0_def)
  moreover have "effects (snd (afterError ''boom'' [rec0]
               ((after_failures 39)\<lparr>currentDelay := 13743895347200000000, records := [rec1],
                   effects := [PutRecordsCall \<lparr>StreamName = ''stream'',
                      Records = [\<lparr>PartitionKey = ''a'', Data = [1]\<rparr>]\<rparr>]\<rparr>))) =
          [PutRecordsCall \<lparr>StreamName = ''stream'',
             Records = [\<lparr>PartitionKey = ''a'', Data = [1]\<rparr>]\<rparr>,
           Debug (Returning 1 40)]"
    unfolding afterError_def Let_def
    by (simp add: nf after_failures_def b_two_def fresh_def)
  ultimately have "case sendBatch failing_sink 1 (after_failures 39) of
      Ok (m, b') \<Rightarrow>
        effects b' =
          [PutRecordsCall \<lparr>StreamName = ''stream'',
             Records = [\<lparr>PartitionKey = ''a'', Data = [1]\<rparr>]\<rparr>,
           Debug (Returning 1 40)]
    | Err e \<Rightarrow> False
    | Panic p \<Rightarrow> False"
    by (simp add: split_beta)
  moreover have "records (after_failures 39) \<noteq> []"
    by (simp add: after_failures_def b_two_def)
  ultimately show ?thesis
    using after_failures_run [of 39] d s by simp
qed

text \<open>
  C5, amended: after \<open>n\<close> consecutive whole-batch errors, \<open>1 \<le> n \<le> 38\<close>, the next
  dispatch on a non-empty buffer sleeps \<open>50ms * 2^(n-1)\<close> before it calls the sink (50ms
  after the first error, doubled after each further one); while \<open>consecutiveErrors\<close> is 0
  no delay is applied; and a whole-batch success sets \<open>consecutiveErrors\<close> and
  \<open>currentDelay\<close> to 0.
\<close>

theorem backoff_doubles:
  "(consecutive_failures put n b \<and> 1 \<le> n \<and> n \<le> 38 \<and> records b \<noteq> [] \<and>
    sendBatch put k b = Ok (m, b') \<longrightarrow>
      sint (50 * Millisecond * 2 ^ (n - 1) :: Duration) = 50000000 * 2 ^ (n - 1) \<and>
      (\<exists>inp l. effects b' =
         effects b @ [Debug (Delaying (50 * Millisecond * 2 ^ (n - 1)) (int n)),
                      Sleep (50 * Millisecond * 2 ^ (n - 1)), PutRecordsCall inp, l] \<and>
         (\<forall>d. l \<noteq> Sleep d))) \<and>
   (consecutive_failures put 0 b \<and> records b \<noteq> [] \<and> sendBatch put k b = Ok (m, b') \<longrightarrow>
      (\<exists>inp l. effects b' = effects b @ [PutRecordsCall inp, l] \<and> (\<forall>d. l \<noteq> Sleep d))) \<and>
   (records b \<noteq> [] \<and> takeRecordsFromBuffer k (backoff b) = Ok (recs, b1) \<and>
    put (client b1) (recordsToInput b1 recs) = ((Some out, None), cl) \<and>
    sendBatch put k b = Ok (m, b') \<longrightarrow>
      consecutiveErrors b' = 0 \<and> currentDelay b' = 0 \<and> consecutive_failures put 0 b')"
proof (intro conjI impI)
  assume a: "consecutive_failures put n b \<and> 1 \<le> n \<and> n \<le> 38 \<and> records b \<noteq> [] \<and>
    sendBatch put k b = Ok (m, b')"
  then have n: "1 \<le> n" "n - 1 \<le> 37" by auto
  show s: "sint (50 * Millisecond * 2 ^ (n - 1) :: Duration) = 50000000 * 2 ^ (n - 1)"
    using n(2) by (rule sint_delay)
  from a consecutive_failures_state [of put n b]
  have st: "consecutiveErrors b = int n" "currentDelay b = stored_delay n" by simp_all
  have d: "currentDelay (backoff b) = 50 * Millisecond * 2 ^ (n - 1)"
  proof (cases "n = 1")
    case True
    with st show ?thesis by (simp add: backoff_delay)
  next
    case False
    with n have n2: "2 \<le> n" by simp
    then have "n - 1 = Suc (n - 2)" by simp
    with st n2 show ?thesis by (simp add: backoff_delay stored_delay_def)
  qed
  have "(0::int) < 50000000 * 2 ^ (n - 1)" by simp
  with s have pos: "sint (currentDelay (backoff b)) > 0" unfolding d by simp
  have e: "effects (backoff b) =
      effects b @ [Debug (Delaying (50 * Millisecond * 2 ^ (n - 1)) (int n)),
                   Sleep (50 * Millisecond * 2 ^ (n - 1))]"
    using pos backoff_effects [of b] by (simp add: d st)
  from a sendBatch_effects [of b put k m b']
  obtain inp l where "effects b' = effects (backoff b) @ [PutRecordsCall inp, l]" "\<forall>d. l \<noteq> Sleep d"
    by auto
  with e show "\<exists>inp l. effects b' =
         effects b @ [Debug (Delaying (50 * Millisecond * 2 ^ (n - 1)) (int n)),
                      Sleep (50 * Millisecond * 2 ^ (n - 1)), PutRecordsCall inp, l] \<and>
         (\<forall>d. l \<noteq> Sleep d)"
    by auto
next
  assume a: "consecutive_failures put 0 b \<and> records b \<noteq> [] \<and> sendBatch put k b = Ok (m, b')"
  with consecutive_failures_state [of put 0 b]
  have st: "consecutiveErrors b = 0" "currentDelay b = 0" by (simp_all add: stored_delay_def)
  have "effects (backoff b) = effects b"
    using backoff_effects [of b] by (simp add: backoff_delay st)
  with a sendBatch_effects [of b put k m b']
  show "\<exists>inp l. effects b' = effects b @ [PutRecordsCall inp, l] \<and> (\<forall>d. l \<noteq> Sleep d)"
    by auto
next
  assume a: "records b \<noteq> [] \<and> takeRecordsFromBuffer k (backoff b) = Ok (recs, b1) \<and>
    put (client b1) (recordsToInput b1 recs) = ((Some out, None), cl) \<and>
    sendBatch put k b = Ok (m, b')"
  let ?b2 = "b1\<lparr>client := cl, effects := effects b1 @ [PutRecordsCall (recordsToInput b1 recs)]\<rparr>"
  from a sendBatch_success [where put = put, of b k recs b1 out cl]
  have "Ok (m, b') = Ok (afterSuccess out recs ?b2)" by simp
  then have b': "b' = snd (afterSuccess out recs ?b2)"
    by (metis result.inject(1) snd_conv)
  then show c: "consecutiveErrors b' = 0" and d: "currentDelay b' = 0"
    by (simp_all add: afterSuccess_frame)
  from c d show "consecutive_failures put 0 b'"
    by (rule consecutive_failures.reset)
qed

lemma sendBatch_failing_ex:
  assumes "records b \<noteq> []"
  shows "\<exists>m b'. sendBatch failing_sink 1 b = Ok (m, b')"
proof -
  obtain recs b1 where t: "takeRecordsFromBuffer 1 (backoff b) = Ok (recs, b1)"
    using take_ex [of 1 "backoff b"] by auto
  have p: "failing_sink (client b1) (recordsToInput b1 recs) = ((None, Some ''boom''), client b1)"
    by (simp add: failing_sink_def)
  from sendBatch_failure [where put = failing_sink, OF assms t p] show ?thesis
    by (metis prod.collapse)
qed

theorem backoff_doubles_witness:
  "consecutive_failures failing_sink 2 (after_failures 2) \<and>
   records (after_failures 2) \<noteq> [] \<and>
   (\<exists>m b' inp l. sendBatch failing_sink 1 (after_failures 2) = Ok (m, b') \<and>
      effects b' = [Debug (Delaying 100000000 2), Sleep 100000000, PutRecordsCall inp, l]) \<and>
   consecutive_failures failing_sink 0 (after_failures 0) \<and>
   (\<exists>m b' inp l. sendBatch failing_sink 1 (after_failures 0) = Ok (m, b') \<and>
      effects b' = [PutRecordsCall inp, l]) \<and>
   takeRecordsFromBuffer 1 (backoff b_two) = Ok ([rec0], b_two\<lparr>records := [rec1]\<rparr>) \<and>
   (\<exists>m b'. sendBatch ok_sink 1 b_two = Ok (m, b') \<and>
      consecutiveErrors b' = 0 \<and> currentDelay b' = 0)"
proof -
  have ne: "records (after_failures n) \<noteq> []" "effects (after_failures n) = []" for n
    by (simp_all add: after_failures_def b_two_def fresh_def)
  obtain m2 b2 where s2: "sendBatch failing_sink 1 (after_failures 2) = Ok (m2, b2)"
    using sendBatch_failing_ex [OF ne(1) [of 2]] by auto
  have w: "(50 * Millisecond * 2 ^ (2 - 1) :: Duration) = 100000000"
    by (simp add: Millisecond_def)
  from backoff_doubles [of failing_sink 2 "after_failures 2" 1 m2 b2]
    after_failures_run [of 2] ne s2
  have a: "\<exists>inp l. effects b2 = [Debug (Delaying 100000000 2), Sleep 100000000, PutRecordsCall inp, l]"
    unfolding w by simp blast
  obtain m0 b0 where s0: "sendBatch failing_sink 1 (after_failures 0) = Ok (m0, b0)"
    using sendBatch_failing_ex [OF ne(1) [of 0]] by auto
  from backoff_doubles [of failing_sink 0 "after_failures 0" 1 m0 b0]
    after_failures_run [of 0] ne s0
  have b: "\<exists>inp l. effects b0 = [PutRecordsCall inp, l]"
    by simp blast
  have h1: "records b_two \<noteq> []"
    by (simp add: b_two_def)
  have h2: "takeRecordsFromBuffer 1 (backoff b_two) = Ok ([rec0], b_two\<lparr>records := [rec1]\<rparr>)"
    by (simp add: backoff_b_two take_b_two)
  have h3: "ok_sink (client (b_two\<lparr>records := [rec1]\<rparr>))
     (recordsToInput (b_two\<lparr>records := [rec1]\<rparr>) [rec0]) =
     ((Some \<lparr>FailedRecordCount = None, ResultRecords = []\<rparr>, None), ())"
    by (simp add: ok_sink_def)
  from sendBatch_success [where put = ok_sink, OF h1 h2 h3]
  obtain m1 b1 where s1: "sendBatch ok_sink 1 b_two = Ok (m1, b1)"
    by (metis prod.collapse)
  from backoff_doubles [of ok_sink 0 b_two 1 m1 b1 "[rec0]" "b_two\<lparr>records := [rec1]\<rparr>"
      "\<lparr>FailedRecordCount = None, ResultRecords = []\<rparr>" "()"] h1 h2 h3 s1
  have c: "consecutiveErrors b1 = 0 \<and> currentDelay b1 = 0"
    by simp
  from after_failures_run [of 2] after_failures_run [of 0] ne(1) s2 a s0 b h2 s1 c
  show ?thesis by blast
qed

section \<open>Dispatch: per-record results\<close>

lemma failed_records_Nil [simp]: "failed_records recs [] = []"
  by (simp add: failed_records_def List.map_filter_simps)








section \<open>Drops and the drop counter\<close>

text \<open>
  C1 at a failing input: a buffer of capacity 20 holding 20 records, four consecutive
  errors so far, a batch size of 1, and a sink that fails again. The batch is dropped (the
  log line says so, no goroutine is started, the buffer holds the other 19 records), and
  \<open>RecordsDroppedSinceLastStat\<close> is still 0 in the snapshot that the next \<open>sendStats\<close>
  hands to the receiver.
\<close>

theorem batch_drop_not_counted:
  "(case sendBatch failing_sink 1 b_drop of
      Ok (m, b') \<Rightarrow>
        m = 0 \<and> records b' = replicate 19 rec0 \<and> goroutines b' = [] \<and> sendq b' = [] \<and>
        consecutiveErrors b' = 5 \<and>
        last (effects b') = ErrorLog (Dropping 1 5) \<and>
        RecordsDroppedSinceLastStat (currentStat b') = 0 \<and>
        effects (sendStats b') =
          effects b' @
          [Receive \<lparr>StatBufferSize = 19, KinesisErrorsSinceLastStat = 1,
                    RecordsSentSuccessfullySinceLastStat = 0,
                    RecordsDroppedSinceLastStat = 0\<rparr>]
    | Err e \<Rightarrow> False
    | Panic p \<Rightarrow> False)"
proof -
  let ?b1 = "(backoff b_drop)\<lparr>records := replicate 19 rec0\<rparr>"
  have h1: "records b_drop \<noteq> []"
    by (simp add: b_drop_def)
  have r: "records b_drop = replicate 20 rec0" "sendq b_drop = []"
    by (simp_all add: b_drop_def fresh_def)
  have e: "replicate 20 rec0 = rec0 # replicate 19 rec0"
  proof -
    have "replicate (Suc 19) rec0 = rec0 # replicate 19 rec0" by (rule replicate_Suc)
    then show ?thesis by simp
  qed
  have rc: "receive (Suc 0) (backoff b_drop) = ([rec0], ?b1)"
    using receive_no_senders [of "backoff b_drop" "Suc 0"]
    by (simp add: r e del: receive.simps)
  have h2: "takeRecordsFromBuffer 1 (backoff b_drop) = Ok ([rec0], ?b1)"
    by (simp add: takeRecordsFromBuffer_def Let_def len_records_def r rc del: receive.simps)
  have h3: "failing_sink (client ?b1) (recordsToInput ?b1 [rec0]) = ((None, Some ''boom''), ())"
    by (simp add: failing_sink_def)
  have nf: "isBufferFullOrNearlyFull b"
    if "records b = replicate 19 rec0" and "config b = cfg_twenty" for b :: "unit batchProducer"
  proof -
    have "cap_records b = 20" "len_records b = 19"
      using that by (simp_all add: cap_records_def len_records_def cfg_twenty_def)
    then show ?thesis
      using nearly_full_iff_95_percent [of b] by simp
  qed
  have c: "config b_drop = cfg_twenty" "consecutiveErrors b_drop = 4" "goroutines b_drop = []"
    "sendq b_drop = []" "currentStat b_drop = new_StatsBatch" "effects b_drop = []"
    by (simp_all add: b_drop_def fresh_def)
  have sr: "StatReceiver cfg_twenty"
    by (simp add: cfg_twenty_def)
  show ?thesis
    unfolding sendBatch_failure [where put = failing_sink, OF h1 h2 h3]
    by (simp add: afterError_def Let_def nf c sr sendStats_def new_StatsBatch_def)
qed

section \<open>The nil error code\<close>

text \<open>
  C10 at a failing input: a result entry with an error message and a nil error code, for
  a record on its last attempt. The drop branch dereferences the code for its log line, and
  the goroutine panics.
\<close>

theorem nil_ErrorCode_panics:
  "returnSomeFailedRecordsToBuffer nil_code [rec1] (b_two\<lparr>records := []\<rparr>) =
     Panic ''nil pointer dereference'' \<and>
   (case sendBatch nil_code_sink 1 b_last_attempt of
      Ok (m, b') \<Rightarrow>
        goroutines b' = [ReturnSomeFailed 0 nil_code [rec1]] \<and>
        runGoroutines b' = Panic ''nil pointer dereference''
    | Err e \<Rightarrow> False
    | Panic p \<Rightarrow> False)"
proof -
  have loop: "someFailedLoop (ResultRecords nil_code) 0 nil_code [rec1] b =
                Panic ''nil pointer dereference''"
    if "MaxAttemptsPerRecord (config b) = 2" for b :: "unit batchProducer"
    using that by (simp add: nil_code_def rec1_def Let_def)
  have mx: "MaxAttemptsPerRecord (config (b_two\<lparr>records := []\<rparr>)) = 2"
    by (simp add: b_two_def fresh_def cfg_two_def)
  have 1: "returnSomeFailedRecordsToBuffer nil_code [rec1] (b_two\<lparr>records := []\<rparr>) =
     Panic ''nil pointer dereference''"
    unfolding returnSomeFailedRecordsToBuffer_def by (rule loop [OF mx])
  let ?b1 = "b_last_attempt\<lparr>records := []\<rparr>"
  have bo: "backoff b_last_attempt = b_last_attempt"
    by (simp add: backoff_def b_last_attempt_def b_two_def fresh_def)
  have h1: "records b_last_attempt \<noteq> []"
    by (simp add: b_last_attempt_def)
  have h2: "takeRecordsFromBuffer 1 (backoff b_last_attempt) = Ok ([rec1], ?b1)"
    unfolding bo
    by (simp add: takeRecordsFromBuffer_def len_records_def b_last_attempt_def b_two_def
        fresh_def Let_def)
  have h3: "nil_code_sink (client ?b1) (recordsToInput ?b1 [rec1]) = ((Some nil_code, None), ())"
    by (simp add: nil_code_sink_def)
  have c: "goroutines b_last_attempt = []" "MaxAttemptsPerRecord (config b_last_attempt) = 2"
    by (simp_all add: b_last_attempt_def b_two_def fresh_def cfg_two_def)
  have fc: "FailedRecordCount nil_code = Some 1"
    by (simp add: nil_code_def)
  have 2: "case sendBatch nil_code_sink 1 b_last_attempt of
      Ok (m, b') \<Rightarrow>
        goroutines b' = [ReturnSomeFailed 0 nil_code [rec1]] \<and>
        runGoroutines b' = Panic ''nil pointer dereference''
    | Err e \<Rightarrow> False
    | Panic p \<Rightarrow> False"
    unfolding sendBatch_success [where put = nil_code_sink, OF h1 h2 h3]
    by (simp add: afterSuccess_def Let_def fc c runGoroutines_def loop)
  from 1 2 show ?thesis by simp
qed

section \<open>Flush\<close>

lemma reported_append [simp]: "reported (xs @ ys) = reported xs + reported ys"
  by (simp add: reported_def)

lemma reported_Nil [simp]: "reported [] = 0"
  by (simp add: reported_def)

lemma reported_Cons [simp]: "reported (x # xs) = succeeded_of x + reported xs"
  by (simp add: reported_def)

lemma sink_calls_append [simp]: "sink_calls (xs @ ys) = sink_calls xs @ sink_calls ys"
  by (induction xs rule: sink_calls.induct) simp_all

lemma returnRecordsToBuffer_effects: "effects (returnRecordsToBuffer rs b) = effects b"
  by (induction rs arbitrary: b) simp_all

lemma someFailedLoop_effects:
  "someFailedLoop results i out recs b = Ok b' \<Longrightarrow>
   \<exists>new. effects b' = effects b @ new \<and> reported new = 0 \<and> sink_calls new = []"
proof (induction results arbitrary: i b)
  case Nil
  then show ?case by simp
next
  case (Cons result rest)
  from Cons.prems obtain e where e: "result = Some e" and i: "i < length recs"
    by (cases result) (auto split: if_splits)
  show ?case
  proof (cases "ErrorMessage e")
    case None
    with Cons.prems e i have "someFailedLoop rest (Suc i) out recs b = Ok b'"
      by (simp add: Let_def)
    from Cons.IH [OF this] show ?thesis .
  next
    case (Some msg)
    let ?r1 = "(recs ! i)\<lparr>sendAttempts := sendAttempts (recs ! i) + 1\<rparr>"
    let ?b1 = "b\<lparr>events := events b @ [newError msg]\<rparr>"
    show ?thesis
    proof (cases "sendAttempts ?r1 < MaxAttemptsPerRecord (config b)")
      case True
      show ?thesis
      proof (cases "has_room ?b1")
        case hr: True
        with Cons.prems e i Some True
        have "someFailedLoop rest (Suc i) out recs (?b1\<lparr>records := records ?b1 @ [?r1]\<rparr>) = Ok b'"
          by (simp add: Let_def)
        from Cons.IH [OF this] show ?thesis by simp
      next
        case hr: False
        with Cons.prems e i Some True
        have "b' = ?b1\<lparr>sendq := sendq ?b1 @ [(?r1, Resume (ReturnSomeFailed (Suc i) out recs))]\<rparr>"
          by (simp add: Let_def)
        then show ?thesis by simp
      qed
    next
      case False
      with Cons.prems e i Some obtain c where c: "ErrorCode e = Some c"
        by (cases "ErrorCode e") (auto simp add: Let_def)
      let ?b2 = "b\<lparr>events := events b @ [newError msg],
                   currentStat := (currentStat b)
                     \<lparr>RecordsDroppedSinceLastStat :=
                        RecordsDroppedSinceLastStat (currentStat b) + 1\<rparr>,
                   effects := effects b @ [ErrorLog (DroppingFailedRecord (sendAttempts ?r1) c msg)]\<rparr>"
      from Cons.prems e i Some False c
      have "someFailedLoop rest (Suc i) out recs ?b2 = Ok b'"
        by (simp add: Let_def)
      from Cons.IH [OF this] obtain new where
        "effects b' = effects ?b2 @ new" "reported new = 0" "sink_calls new = []"
        by blast
      then have "effects b' = effects b @
                   (ErrorLog (DroppingFailedRecord (sendAttempts ?r1) c msg) # new) \<and>
                 reported (ErrorLog (DroppingFailedRecord (sendAttempts ?r1) c msg) # new) = 0 \<and>
                 sink_calls (ErrorLog (DroppingFailedRecord (sendAttempts ?r1) c msg) # new) = []"
        by simp
      then show ?thesis by blast
    qed
  qed
qed

lemma runGoroutine_effects:
  "runGoroutine g b = Ok b' \<Longrightarrow>
   \<exists>new. effects b' = effects b @ new \<and> reported new = 0 \<and> sink_calls new = []"
proof (cases g)
  case (ReturnRecords rs)
  assume "runGoroutine g b = Ok b'"
  with ReturnRecords have "effects b' = effects b"
    by (auto simp add: returnRecordsToBuffer_effects)
  then show ?thesis by simp
next
  case (ReturnSomeFailed i out recs)
  assume "runGoroutine g b = Ok b'"
  with ReturnSomeFailed show ?thesis
    by (simp add: someFailedLoop_effects)
qed

lemma runAll_effects:
  "runAll gs b = Ok b' \<Longrightarrow>
   \<exists>new. effects b' = effects b @ new \<and> reported new = 0 \<and> sink_calls new = []"
proof (induction gs arbitrary: b)
  case Nil
  then show ?case by simp
next
  case (Cons g gs)
  from Cons.prems obtain b1 where g: "runGoroutine g b = Ok b1" and r: "runAll gs b1 = Ok b'"
    by (auto split: result.splits)
  from runGoroutine_effects [OF g] obtain n1 where
    1: "effects b1 = effects b @ n1" "reported n1 = 0" "sink_calls n1 = []" by blast
  from Cons.IH [OF r] obtain n2 where
    2: "effects b' = effects b1 @ n2" "reported n2 = 0" "sink_calls n2 = []" by blast
  from 1 2 have "effects b' = effects b @ (n1 @ n2) \<and> reported (n1 @ n2) = 0 \<and>
                 sink_calls (n1 @ n2) = []"
    by simp
  then show ?case by blast
qed

lemma runGoroutines_effects:
  "runGoroutines b = Ok b' \<Longrightarrow>
   \<exists>new. effects b' = effects b @ new \<and> reported new = 0 \<and> sink_calls new = []"
  using runAll_effects [of "goroutines b" "b\<lparr>goroutines := []\<rparr>" b']
  by (simp add: runGoroutines_def)




lemma someFailedLoop_quiet:
  "i + length results \<le> length recs \<Longrightarrow>
   \<forall>res \<in> set results. \<exists>e. res = Some e \<and> ErrorMessage e = None \<Longrightarrow>
   someFailedLoop results i out recs b = Ok b"
proof (induction results arbitrary: i)
  case Nil
  show ?case by simp
next
  case (Cons result rest)
  from Cons.prems(2) obtain e where e: "result = Some e" "ErrorMessage e = None" by auto
  from Cons.prems have "someFailedLoop rest (Suc i) out recs b = Ok b"
    by (intro Cons.IH) simp_all
  with Cons.prems(1) e show ?case by (simp add: Let_def)
qed

lemma quiet_run: "quiet g \<Longrightarrow> runGoroutine g b = Ok b"
  by (cases g) (simp_all add: someFailedLoop_quiet)

lemma runAll_quiet: "\<forall>g \<in> set gs. quiet g \<Longrightarrow> runAll gs b = Ok b"
  by (induction gs) (simp_all add: quiet_run)

lemma runGoroutines_quiet:
  "\<forall>g \<in> set (goroutines b). quiet g \<Longrightarrow> runGoroutines b = Ok (b\<lparr>goroutines := []\<rparr>)"
  by (simp add: runGoroutines_def runAll_quiet)

lemma chunks_Cons:
  "xs \<noteq> [] \<Longrightarrow> chunks 500 xs = take 500 xs # chunks 500 (drop 500 xs)"
  by (subst chunks.simps) simp

lemma chunks_Nil: "chunks n [] = []"
  by (subst chunks.simps) simp

lemma sendBatch_delivered:
  assumes "always_succeeds put" and "sendq b = []" and "records b \<noteq> []"
    and "\<forall>g \<in> set (goroutines b). quiet g"
  shows "\<exists>b'. sendBatch put MaxKinesisBatchSize b =
                 Ok (int (length (take 500 (records b))), b') \<and>
           records b' = drop 500 (records b) \<and> sendq b' = [] \<and>
           (\<forall>g \<in> set (goroutines b'). quiet g) \<and>
           streamName b' = streamName b \<and> config b' = config b \<and>
           sink_calls (effects b') =
             sink_calls (effects b) @ [recordsToInput b (take 500 (records b))]"
proof -
  let ?n = "nat (min 500 (len_records b))"
  let ?recs = "take 500 (records b)"
  let ?b1 = "(backoff b)\<lparr>records := drop 500 (records b)\<rparr>"
  have n: "?n = min 500 (length (records b))"
    by (simp add: len_records_def min_def)
  have "receive ?n (backoff b) =
          (take ?n (records (backoff b)), (backoff b)\<lparr>records := drop ?n (records (backoff b))\<rparr>)"
    by (rule receive_no_senders) (simp_all add: assms(2) len_records_def)
  moreover have "take ?n (records b) = ?recs" "drop ?n (records b) = drop 500 (records b)"
    unfolding n by (simp_all add: min_def)
  ultimately have rc: "receive ?n (backoff b) = (?recs, ?b1)"
    by simp
  have t: "takeRecordsFromBuffer MaxKinesisBatchSize (backoff b) = Ok (?recs, ?b1)"
    using rc by (simp add: takeRecordsFromBuffer_def MaxKinesisBatchSize_def Let_def
        len_records_def min_def)
  from assms(1) obtain out cl where
    p: "put (client ?b1) (recordsToInput ?b1 ?recs) = ((Some out, None), cl)"
    and d: "all_delivered (recordsToInput ?b1 ?recs) out"
    unfolding always_succeeds_def by blast
  let ?b2 = "?b1\<lparr>client := cl,
                effects := effects ?b1 @ [PutRecordsCall (recordsToInput ?b1 ?recs)]\<rparr>"
  let ?b' = "snd (afterSuccess out ?recs ?b2)"
  from d have fc: "FailedRecordCount out = None \<or> FailedRecordCount out = Some 0"
    and q: "quiet (ReturnSomeFailed 0 out ?recs)"
    by (simp_all add: all_delivered_def recordsToInput_def)
  from fc have f: "fst (afterSuccess out ?recs ?b2) = int (length ?recs)"
    by (auto simp add: afterSuccess_def Let_def)
  from sendBatch_success [where put = put, OF assms(3) t p] f
  have sb: "sendBatch put MaxKinesisBatchSize b = Ok (int (length ?recs), ?b')"
    by (metis prod.collapse)
  have i: "recordsToInput ?b1 ?recs = recordsToInput b ?recs"
    by (simp add: recordsToInput_def)
  have fr: "records ?b' = drop 500 (records b)" "sendq ?b' = []"
    "streamName ?b' = streamName b" "config ?b' = config b"
    using assms(2) by (simp_all add: afterSuccess_def Let_def split: option.split)
  have g: "\<forall>g \<in> set (goroutines ?b'). quiet g"
    using assms(4) q by (auto simp add: afterSuccess_def Let_def split: option.split)
  have "sink_calls (effects (backoff b)) = sink_calls (effects b)"
    by (simp add: backoff_effects)
  then have e: "sink_calls (effects ?b') = sink_calls (effects b) @ [recordsToInput b ?recs]"
    unfolding i [symmetric]
    by (simp add: afterSuccess_def Let_def split: option.split)
  from sb fr g e show ?thesis by blast
qed

lemma drain_all_delivered:
  assumes "always_succeeds put"
  shows "sendq b = [] \<Longrightarrow> \<forall>g \<in> set (goroutines b). quiet g \<Longrightarrow> length (records b) < fuel \<Longrightarrow>
     \<exists>b'. drain fuel put (\<lambda>i. False) sched i sent b =
             Some (Ok (False, sent + int (length (records b)), b')) \<and>
           records b' = [] \<and> config b' = config b \<and>
           sink_calls (effects b') =
             sink_calls (effects b) @ map (recordsToInput b) (chunks 500 (records b))"
proof (induction fuel arbitrary: b i sent)
  case 0
  then show ?case by simp
next
  case (Suc fuel)
  let ?b0 = "if sched i then b\<lparr>goroutines := []\<rparr> else b"
  have b0: "(if sched i then runGoroutines b else Ok b) = Ok ?b0"
    using Suc.prems(2) by (simp add: runGoroutines_quiet)
  have fr0: "records ?b0 = records b" "sendq ?b0 = []" "effects ?b0 = effects b"
    "streamName ?b0 = streamName b" "config ?b0 = config b"
    "\<forall>g \<in> set (goroutines ?b0). quiet g"
    using Suc.prems(1,2) by simp_all
  show ?case
  proof (cases "records b = []")
    case True
    then show ?thesis
      unfolding drain.simps b0 by (simp add: fr0 chunks_Nil)
  next
    case False
    then have ne: "records ?b0 \<noteq> []" by (simp add: fr0)
    from sendBatch_delivered [OF assms fr0(2) ne fr0(6)]
    obtain b1 where sb: "sendBatch put MaxKinesisBatchSize ?b0 =
                 Ok (int (length (take 500 (records b))), b1)"
      and r1: "records b1 = drop 500 (records b)" and q1: "sendq b1 = []"
      and g1: "\<forall>g \<in> set (goroutines b1). quiet g"
      and s1: "streamName b1 = streamName b" and c1: "config b1 = config b"
      and e1: "sink_calls (effects b1) =
             sink_calls (effects b) @ [recordsToInput b (take 500 (records b))]"
      unfolding fr0 by (auto simp add: recordsToInput_def fr0)
    from False Suc.prems(3) have l: "length (records b1) < fuel"
      by (simp add: r1) (cases "records b", simp_all)
    from Suc.IH [OF q1 g1 l, of "Suc i" "sent + int (length (take 500 (records b)))"]
    obtain b' where d: "drain fuel put (\<lambda>i. False) sched (Suc i)
                          (sent + int (length (take 500 (records b)))) b1 =
             Some (Ok (False, sent + int (length (take 500 (records b))) + int (length (records b1)), b'))"
      and r': "records b' = []" and c': "config b' = config b1"
      and e': "sink_calls (effects b') =
             sink_calls (effects b1) @ map (recordsToInput b1) (chunks 500 (records b1))"
      by blast
    have i1: "recordsToInput b1 = recordsToInput b"
      by (rule ext) (simp add: recordsToInput_def s1)
    have len: "int (length (take 500 (records b))) + int (length (records b1)) = int (length (records b))"
      unfolding r1 by (simp add: min_def)
    have "drain (Suc fuel) put (\<lambda>i. False) sched i sent b =
            Some (Ok (False, sent + int (length (records b)), b'))"
      unfolding drain.simps b0 using ne sb d len by (simp add: add.assoc)
    moreover have "sink_calls (effects b') =
             sink_calls (effects b) @ map (recordsToInput b) (chunks 500 (records b))"
      unfolding e' e1 i1 r1 chunks_Cons [OF False] by simp
    ultimately show ?thesis
      using r' c' c1 by simp
  qed
qed

lemma Stop_frame:
  "records (snd (Stop b)) = records b" "sendq (snd (Stop b)) = sendq b"
  "goroutines (snd (Stop b)) = goroutines b" "config (snd (Stop b)) = config b"
  "streamName (snd (Stop b)) = streamName b" "woken (snd (Stop b)) = woken b"
  "\<not> running (snd (Stop b))"
  by (simp_all add: Stop_def sendStats_def Let_def)

lemma sendStats_effects:
  "\<exists>new. effects (sendStats b) = effects b @ new \<and> reported new = 0 \<and> sink_calls new = []"
  by (simp add: sendStats_def Let_def)

lemma Stop_effects:
  "\<exists>new. effects (snd (Stop b)) = effects b @ new \<and> reported new = 0 \<and> sink_calls new = []"
  using sendStats_effects [of b] by (simp add: Stop_def)

lemma sendStats_frame:
  "records (sendStats b) = records b" "config (sendStats b) = config b"
  by (simp_all add: sendStats_def Let_def)

lemma Flush_all_delivered:
  assumes "always_succeeds put" and "sendq b = []" and "goroutines b = []"
    and "length (records b) < fuel"
  shows "\<exists>b''. Flush fuel put fired sched 0 True b =
                Some (Ok (int (length (records b)), 0, None, b'')) \<and>
         records b'' = [] \<and>
         sink_calls (effects b'') =
           sink_calls (effects b) @ map (recordsToInput b) (chunks 500 (records b))"
proof -
  let ?b1 = "snd (Stop b)"
  from assms have as: "always_succeeds put" and q: "sendq ?b1 = []"
    and g: "\<forall>g \<in> set (goroutines ?b1). quiet g" and l: "length (records ?b1) < fuel"
    by (simp_all add: Stop_frame)
  from drain_all_delivered [OF as q g l, of sched 0 0]
  obtain b2 where d: "drain fuel put (\<lambda>i. False) sched 0 0 ?b1 =
             Some (Ok (False, int (length (records b)), b2))"
    and r2: "records b2 = []"
    and e2: "sink_calls (effects b2) =
             sink_calls (effects ?b1) @ map (recordsToInput ?b1) (chunks 500 (records ?b1))"
    by (auto simp add: Stop_frame)
  have i: "recordsToInput ?b1 = recordsToInput b"
    by (rule ext) (simp add: recordsToInput_def Stop_frame)
  from Stop_effects [of b] have s1: "sink_calls (effects ?b1) = sink_calls (effects b)"
    by auto
  from sendStats_effects [of b2]
  have s2: "sink_calls (effects (sendStats b2)) = sink_calls (effects b2)"
    by auto
  have "Flush fuel put fired sched 0 True b =
          Some (Ok (int (length (records b)), 0, None, sendStats b2))"
    using d r2 by (simp add: Flush_def Let_def len_records_def sendStats_frame)
  moreover have "records (sendStats b2) = []"
    using r2 by (simp add: sendStats_frame)
  moreover have "sink_calls (effects (sendStats b2)) =
           sink_calls (effects b) @ map (recordsToInput b) (chunks 500 (records b))"
    unfolding s2 e2 s1 i by (simp add: Stop_frame)
  ultimately show ?thesis by blast
qed


lemma ok_sink_always_succeeds: "always_succeeds ok_sink"
  by (simp add: always_succeeds_def ok_sink_def all_delivered_def)


section \<open>Executions: the worker, Flush and waiting senders\<close>

lemma subset_insert_self [simp]: "A \<subseteq> insert a A"
  by auto

lemma same_lifecycle_refl [simp]: "same_lifecycle b b"
  by (auto simp add: same_lifecycle_def)

lemma same_lifecycle_trans:
  "same_lifecycle a b \<Longrightarrow> same_lifecycle b c \<Longrightarrow> same_lifecycle a c"
  by (auto simp add: same_lifecycle_def)

lemma same_lifecycle_fields:
  "running b' = running b \<Longrightarrow> worker b' = worker b \<Longrightarrow> woken b' = woken b \<Longrightarrow>
   same_lifecycle b b'"
  by (auto simp add: same_lifecycle_def)

lemma wake_lifecycle: "same_lifecycle b (wake s b)"
  by (cases s) (auto simp add: same_lifecycle_def)

lemma receive_lifecycle: "same_lifecycle b (snd (receive n b))"
proof (induction n arbitrary: b)
  case 0
  show ?case by simp
next
  case (Suc n)
  show ?case
  proof (cases "records b")
    case Nil
    then show ?thesis by simp
  next
    case (Cons r rest)
    show ?thesis
    proof (cases "sendq b")
      case Nil
      have "same_lifecycle b (b\<lparr>records := rest\<rparr>)"
        by (simp add: same_lifecycle_def)
      from same_lifecycle_trans [OF this Suc [of "b\<lparr>records := rest\<rparr>"]] Nil Cons
      show ?thesis by (simp add: split_beta Let_def)
    next
      case c: (Cons vs q)
      obtain v s where vs: "vs = (v, s)" by (cases vs)
      let ?b1 = "wake s (b\<lparr>records := rest @ [v], sendq := q\<rparr>)"
      have "same_lifecycle b (b\<lparr>records := rest @ [v], sendq := q\<rparr>)"
        by (simp add: same_lifecycle_def)
      from same_lifecycle_trans [OF this wake_lifecycle]
      have "same_lifecycle b ?b1" .
      from same_lifecycle_trans [OF this Suc [of ?b1]] c vs Cons
      show ?thesis by (simp add: split_beta Let_def)
    qed
  qed
qed

lemma take_lifecycle:
  "takeRecordsFromBuffer k b = Ok (recs, b1) \<Longrightarrow> same_lifecycle b b1"
proof -
  assume "takeRecordsFromBuffer k b = Ok (recs, b1)"
  then obtain n where "receive n b = (recs, b1)"
    by (auto simp add: takeRecordsFromBuffer_def Let_def split: if_splits)
  then have "b1 = snd (receive n b)" by simp
  with receive_lifecycle [of b n] show ?thesis by simp
qed

lemma backoff_lifecycle: "same_lifecycle b (backoff b)"
  by (simp add: same_lifecycle_fields)

lemma afterError_lifecycle: "same_lifecycle b (snd (afterError e recs b))"
  by (simp add: afterError_def Let_def same_lifecycle_def)

lemma afterSuccess_lifecycle: "same_lifecycle b (snd (afterSuccess out recs b))"
  by (simp add: afterSuccess_def Let_def same_lifecycle_def split: option.split)

lemma sendBatch_lifecycle:
  assumes "sendBatch put k b = Ok (n, b')"
  shows "same_lifecycle b b'"
proof (cases "records b = []")
  case True
  with assms show ?thesis by (simp add: sendBatch_def)
next
  case False
  from False assms obtain recs b1 where t: "takeRecordsFromBuffer k (backoff b) = Ok (recs, b1)"
    by (auto simp add: sendBatch_def split: result.splits)
  obtain res err cl where p: "put (client b1) (recordsToInput b1 recs) = ((res, err), cl)"
    by (metis prod.exhaust)
  let ?b2 = "b1\<lparr>client := cl, effects := effects b1 @ [PutRecordsCall (recordsToInput b1 recs)]\<rparr>"
  have 1: "same_lifecycle b ?b2"
    using same_lifecycle_trans [OF backoff_lifecycle take_lifecycle [OF t]]
    by (simp add: same_lifecycle_def)
  show ?thesis
  proof (cases err)
    case (Some e)
    with assms False t p have "afterError e recs ?b2 = (n, b')"
      by (simp add: sendBatch_def Let_def)
    then have "b' = snd (afterError e recs ?b2)" by simp
    with same_lifecycle_trans [OF 1 afterError_lifecycle] show ?thesis by simp
  next
    case None
    with assms False t p obtain out where "afterSuccess out recs ?b2 = (n, b')"
      by (auto simp add: sendBatch_def Let_def split: option.splits)
    then have "b' = snd (afterSuccess out recs ?b2)" by simp
    with same_lifecycle_trans [OF 1 afterSuccess_lifecycle] show ?thesis by simp
  qed
qed

lemma returnRecordsToBuffer_lifecycle: "same_lifecycle b (returnRecordsToBuffer rs b)"
proof (induction rs arbitrary: b)
  case Nil
  show ?case by simp
next
  case (Cons r rs)
  have "same_lifecycle b (b\<lparr>records := records b @ [r]\<rparr>)"
    by (simp add: same_lifecycle_def)
  from same_lifecycle_trans [OF this Cons [of "b\<lparr>records := records b @ [r]\<rparr>"]]
  show ?case by (simp add: same_lifecycle_def)
qed

lemma someFailedLoop_lifecycle:
  "someFailedLoop results i out recs b = Ok b' \<Longrightarrow> same_lifecycle b b'"
proof (induction results arbitrary: i b)
  case Nil
  then show ?case by simp
next
  case (Cons result rest)
  from Cons.prems obtain e where e: "result = Some e" and i: "i < length recs"
    by (cases result) (auto split: if_splits)
  show ?case
  proof (cases "ErrorMessage e")
    case None
    with Cons.prems e i have "someFailedLoop rest (Suc i) out recs b = Ok b'"
      by (simp add: Let_def)
    from Cons.IH [OF this] show ?thesis .
  next
    case (Some msg)
    let ?r1 = "(recs ! i)\<lparr>sendAttempts := sendAttempts (recs ! i) + 1\<rparr>"
    let ?b1 = "b\<lparr>events := events b @ [newError msg]\<rparr>"
    show ?thesis
    proof (cases "sendAttempts ?r1 < MaxAttemptsPerRecord (config b)")
      case True
      show ?thesis
      proof (cases "has_room ?b1")
        case hr: True
        with Cons.prems e i Some True
        have "someFailedLoop rest (Suc i) out recs (?b1\<lparr>records := records ?b1 @ [?r1]\<rparr>) = Ok b'"
          by (simp add: Let_def)
        from Cons.IH [OF this] show ?thesis by (simp add: same_lifecycle_def)
      next
        case hr: False
        with Cons.prems e i Some True
        have "b' = ?b1\<lparr>sendq := sendq ?b1 @ [(?r1, Resume (ReturnSomeFailed (Suc i) out recs))]\<rparr>"
          by (simp add: Let_def)
        then show ?thesis by (simp add: same_lifecycle_def)
      qed
    next
      case False
      with Cons.prems e i Some obtain c where c: "ErrorCode e = Some c"
        by (cases "ErrorCode e") (auto simp add: Let_def)
      let ?b2 = "b\<lparr>events := events b @ [newError msg],
                   currentStat := (currentStat b)
                     \<lparr>RecordsDroppedSinceLastStat :=
                        RecordsDroppedSinceLastStat (currentStat b) + 1\<rparr>,
                   effects := effects b @ [ErrorLog (DroppingFailedRecord (sendAttempts ?r1) c msg)]\<rparr>"
      from Cons.prems e i Some False c
      have "someFailedLoop rest (Suc i) out recs ?b2 = Ok b'"
        by (simp add: Let_def)
      from Cons.IH [OF this] show ?thesis by (simp add: same_lifecycle_def)
    qed
  qed
qed

lemma runGoroutine_lifecycle: "runGoroutine g b = Ok b' \<Longrightarrow> same_lifecycle b b'"
  using returnRecordsToBuffer_lifecycle someFailedLoop_lifecycle
  by (cases g) auto

lemma runAll_lifecycle: "runAll gs b = Ok b' \<Longrightarrow> same_lifecycle b b'"
proof (induction gs arbitrary: b)
  case Nil
  then show ?case by simp
next
  case (Cons g gs)
  from Cons.prems obtain b1 where g: "runGoroutine g b = Ok b1" and r: "runAll gs b1 = Ok b'"
    by (auto split: result.splits)
  from same_lifecycle_trans [OF runGoroutine_lifecycle [OF g] Cons.IH [OF r]] show ?case .
qed

lemma runGoroutines_lifecycle: "runGoroutines b = Ok b' \<Longrightarrow> same_lifecycle b b'"
  using runAll_lifecycle [of "goroutines b" "b\<lparr>goroutines := []\<rparr>" b']
  by (simp add: runGoroutines_def same_lifecycle_def)

lemma sendStats_lifecycle: "same_lifecycle b (sendStats b)"
  by (simp add: sendStats_def Let_def same_lifecycle_def)

lemma drain_lifecycle:
  "drain fuel put fired sched i sent b = Some (Ok (t, sent', b')) \<Longrightarrow> same_lifecycle b b'"
proof (induction fuel arbitrary: i sent b)
  case 0
  then show ?case by simp
next
  case (Suc fuel)
  from Suc.prems obtain b0 where b0: "(if sched i then runGoroutines b else Ok b) = Ok b0"
    by (auto split: result.splits)
  then have l0: "same_lifecycle b b0"
    using runGoroutines_lifecycle [of b b0] by (auto split: if_splits)
  show ?case
  proof (cases "length (records b0) > 0 \<and> \<not> fired i")
    case False
    with Suc.prems b0 have "b' = b0"
      by (auto split: if_splits)
    with l0 show ?thesis by simp
  next
    case True
    with Suc.prems b0 obtain n b1 where sb: "sendBatch put MaxKinesisBatchSize b0 = Ok (n, b1)"
      and d: "drain fuel put fired sched (Suc i) (sent + n) b1 = Some (Ok (t, sent', b'))"
      by (auto split: result.splits)
    from same_lifecycle_trans [OF l0
        same_lifecycle_trans [OF sendBatch_lifecycle [OF sb] Suc.IH [OF d]]]
    show ?thesis .
  qed
qed

lemma run_iteration_lifecycle:
  assumes "run_iteration put r b = Ok b'"
  shows "same_lifecycle b b'"
proof -
  have sb: "same_lifecycle b b'" if "dropCount (sendBatch put k b) = Ok b'" for k
  proof -
    from that obtain n where "sendBatch put k b = Ok (n, b')"
      by (cases "sendBatch put k b" rule: dropCount.cases) auto
    then show ?thesis by (rule sendBatch_lifecycle)
  qed
  show ?thesis
  proof (cases r)
    case FlushTick
    with assms sb show ?thesis by simp
  next
    case StatTick
    with assms sendStats_lifecycle [of b] show ?thesis by auto
  next
    case NoneReady
    with assms sb show ?thesis
      by (auto simp add: same_lifecycle_def split: if_splits)
  qed
qed

lemma Flush_lifecycle:
  assumes "Flush fuel put fired sched timeout ss b = Some (Ok (sent, remaining, err, b'))"
  shows "same_lifecycle (snd (Stop b)) b'"
proof -
  let ?timer = "if timeout = 0 then (\<lambda>i. False) else fired"
  from assms obtain t b2 where d: "drain fuel put ?timer sched 0 0 (snd (Stop b)) = Some (Ok (t, sent, b2))"
    and b': "b' = (if \<not> t \<and> ss then sendStats b2 else b2)"
    by (auto simp add: Flush_def Let_def split: option.splits result.splits)
  from drain_lifecycle [OF d] have 1: "same_lifecycle (snd (Stop b)) b2" .
  show ?thesis
  proof (cases "\<not> t \<and> ss")
    case True
    with b' same_lifecycle_trans [OF 1 sendStats_lifecycle] show ?thesis by simp
  next
    case False
    with b' 1 show ?thesis by simp
  qed
qed

lemma step_invariant:
  assumes "step put b m b'"
    and "worker b = running b \<and> (\<forall>e \<in> set (woken b). e = None)"
  shows "worker b' = running b' \<and> (\<forall>e \<in> set (woken b'). e = None)"
  using assms
proof (cases rule: step.cases)
  case (start e)
  with assms(2) show ?thesis by (auto simp add: Start_def split: if_splits)
next
  case (stop e)
  with assms(2) show ?thesis by (auto simp add: Stop_def sendStats_def Let_def split: if_splits)
next
  case (add_returns d key e)
  with assms(2) show ?thesis by (auto simp add: Add_def Let_def split: if_splits)
next
  case (add_blocks d key)
  with assms(2) show ?thesis by (auto simp add: Add_def Let_def split: if_splits)
next
  case (flush fuel fired sched timeout ss sent remaining err)
  from Flush_lifecycle [OF flush(2)] have l: "same_lifecycle (snd (Stop b)) b'" .
  have "worker (snd (Stop b)) = running (snd (Stop b))" "woken (snd (Stop b)) = woken b"
    using assms(2) by (auto simp add: Stop_def sendStats_def Let_def)
  with l assms(2) show ?thesis by (auto simp add: same_lifecycle_def)
next
  case (worker_pass r)
  from run_iteration_lifecycle [OF worker_pass(4)] assms(2) show ?thesis
    by (auto simp add: same_lifecycle_def)
next
  case scheduler
  from runGoroutines_lifecycle [OF scheduler(2)] assms(2) show ?thesis
    by (auto simp add: same_lifecycle_def)
qed

lemma reachable_invariant:
  "reachable put b \<Longrightarrow> worker b = running b \<and> (\<forall>e \<in> set (woken b). e = None)"
proof (induction rule: reachable.induct)
  case (init cl name cfg b)
  then show ?case by (auto simp add: New_def split: if_splits)
next
  case (move b m b')
  from step_invariant [OF move.hyps(2) move.IH] show ?case .
qed

lemma execution_to_loaded:
  "New () ''stream'' cfg_two = Ok (fresh cfg_two)"
  "Start (fresh cfg_two) = (None, started)"
  "Add [1] ''a'' started = Returned None loaded"
  "Stop loaded = (None, stopped)"
proof -
  show "New () ''stream'' cfg_two = Ok (fresh cfg_two)"
    by (simp add: New_def fresh_def cfg_two_def DefaultConfig_def MaxKinesisBatchSize_def
        sint_50ms sint_Second)
  show "Start (fresh cfg_two) = (None, started)"
    by (simp add: Start_def started_def fresh_def)
  have c: "cap_records started = 2" "len_records started = 0" "running started"
    "\<not> AddBlocksWhenBufferFull (config started)" "records started = []"
    by (simp_all add: started_def fresh_def cfg_two_def DefaultConfig_def cap_records_def
        len_records_def)
  then have "\<not> isBufferFull started"
    using full_iff_99_percent [of started] by simp
  with c show "Add [1] ''a'' started = Returned None loaded"
    by (simp add: Add_def has_room_def loaded_def rec0_def)
  show "Stop loaded = (None, stopped)"
    by (simp add: Stop_def sendStats_def stopped_def loaded_def started_def fresh_def
        cfg_two_def DefaultConfig_def)
qed

lemma reachable_loaded: "reachable put loaded"
proof -
  have "reachable put (fresh cfg_two)"
    using execution_to_loaded(1) by (rule reachable.init)
  then have "reachable put started"
    using step.start [OF execution_to_loaded(2)] by (rule reachable.move)
  then show ?thesis
    using step.add_returns [OF execution_to_loaded(3)] by (rule reachable.move)
qed

text \<open>
  C2, as stated, fails: \<open>Flush\<close> calls the sink after \<open>Stop\<close> has returned. In the
  execution \<open>New\<close>, \<open>Start\<close>, \<open>Add\<close>, \<open>Stop\<close>, \<open>Flush(0, true)\<close> the call of \<open>Stop\<close>
  returns nil, the producer is not running, no \<open>Start\<close> follows, and \<open>Flush\<close> sends the
  buffered record to the sink.
\<close>

theorem Flush_calls_sink_after_Stop:
  "reachable ok_sink loaded \<and> Stop loaded = (None, stopped) \<and> \<not> running stopped \<and>
   sink_calls (effects stopped) = [] \<and>
   (\<exists>b'. Flush 2 ok_sink (\<lambda>i. False) (\<lambda>i. False) 0 True stopped = Some (Ok (1, 0, None, b')) \<and>
      step ok_sink stopped (CallFlush 0 True) b' \<and>
      sink_calls (effects b') = [recordsToInput stopped [rec0]])"
proof -
  have f: "sendq stopped = []" "goroutines stopped = []" "records stopped = [rec0]"
    "effects stopped = []" "\<not> running stopped"
    by (simp_all add: stopped_def loaded_def started_def fresh_def)
  have l: "length (records stopped) < 2" by (simp add: f)
  from Flush_all_delivered [OF ok_sink_always_succeeds f(1,2) l, of "\<lambda>i. False" "\<lambda>i. False"]
  obtain b' where fl: "Flush 2 ok_sink (\<lambda>i. False) (\<lambda>i. False) 0 True stopped =
                         Some (Ok (1, 0, None, b'))"
    and sc: "sink_calls (effects b') = [recordsToInput stopped [rec0]]"
    by (auto simp add: f chunks_Cons chunks_Nil)
  from step.flush [OF fl] have "step ok_sink stopped (CallFlush 0 True) b'" .
  with fl sc f reachable_loaded [of ok_sink] execution_to_loaded(4) show ?thesis
    by auto
qed

text \<open>
  C2, amended: in every execution the worker is alive exactly while the producer is
  running, that is between a \<open>Start\<close> and the completion of the matching \<open>Stop\<close>; and a
  move that calls the sink is either a pass of the worker's loop, made while the producer
  is running, or a call of \<open>Flush\<close>, which stops the producer first and leaves it stopped.
\<close>

theorem sink_calls_by_worker_or_Flush:
  "reachable put b \<and> step put b m b' \<longrightarrow>
     worker b = running b \<and>
     (sink_calls (effects b') \<noteq> sink_calls (effects b) \<longrightarrow>
        (\<exists>r. m = WorkerPass r \<and> running b) \<or> (\<exists>t ss. m = CallFlush t ss \<and> \<not> running b'))"
proof
  assume a: "reachable put b \<and> step put b m b'"
  then have inv: "worker b = running b" using reachable_invariant [of put b] by simp
  from a have st: "step put b m b'" by simp
  have "(\<exists>r. m = WorkerPass r \<and> running b) \<or> (\<exists>t ss. m = CallFlush t ss \<and> \<not> running b')"
    if ch: "sink_calls (effects b') \<noteq> sink_calls (effects b)"
    using st
  proof (cases rule: step.cases)
    case (start e)
    with ch show ?thesis by (auto simp add: Start_def split: if_splits)
  next
    case (stop e)
    then have "b' = snd (Stop b)" by simp
    with Stop_effects [of b] ch show ?thesis by auto
  next
    case (add_returns d key e)
    with ch show ?thesis by (auto simp add: Add_def Let_def split: if_splits)
  next
    case (add_blocks d key)
    with ch show ?thesis by (auto simp add: Add_def Let_def split: if_splits)
  next
    case (flush fuel fired sched timeout ss sent remaining err)
    from Flush_lifecycle [OF flush(2)] Stop_frame(7) [of b] have "\<not> running b'"
      by (simp add: same_lifecycle_def)
    with flush(1) show ?thesis by simp
  next
    case (worker_pass r)
    with inv show ?thesis by simp
  next
    case scheduler
    from runGoroutines_effects [OF scheduler(2)] ch show ?thesis by auto
  qed
  with inv show "worker b = running b \<and>
     (sink_calls (effects b') \<noteq> sink_calls (effects b) \<longrightarrow>
        (\<exists>r. m = WorkerPass r \<and> running b) \<or> (\<exists>t ss. m = CallFlush t ss \<and> \<not> running b'))"
    by blast
qed

theorem sink_calls_by_worker_or_Flush_witness:
  "reachable ok_sink loaded \<and> running loaded \<and> worker loaded \<and>
   (\<exists>b'. step ok_sink loaded (WorkerPass NoneReady) b' \<and>
      sink_calls (effects b') \<noteq> sink_calls (effects loaded))"
proof -
  have f: "records loaded \<noteq> []" "worker loaded" "effects loaded = []"
    "len_records loaded \<ge> BatchSize (config loaded)"
    by (simp_all add: loaded_def started_def fresh_def len_records_def cfg_two_def)
  obtain recs b1 where t: "takeRecordsFromBuffer (BatchSize (config loaded)) (backoff loaded) = Ok (recs, b1)"
    using take_ex [of "BatchSize (config loaded)" "backoff loaded"]
    by (auto simp add: loaded_def started_def fresh_def cfg_two_def)
  have p: "ok_sink (client b1) (recordsToInput b1 recs) =
             ((Some \<lparr>FailedRecordCount = None, ResultRecords = []\<rparr>, None), client b1)"
    by (simp add: ok_sink_def)
  from sendBatch_success [where put = ok_sink, OF f(1) t p]
  obtain n b' where sb: "sendBatch ok_sink (BatchSize (config loaded)) loaded = Ok (n, b')"
    by (metis prod.collapse)
  from sendBatch_effects [OF f(1) sb] obtain inp l where
    "effects b' = effects (backoff loaded) @ [PutRecordsCall inp, l]" by blast
  then have ch: "sink_calls (effects b') \<noteq> sink_calls (effects loaded)"
    by (simp add: backoff_effects f(3))
  have "run_iteration ok_sink NoneReady loaded = Ok b'"
    using f(4) sb by simp
  then have st: "step ok_sink loaded (WorkerPass NoneReady) b'"
    using f(2) by (intro step.worker_pass) simp_all
  from sink_calls_by_worker_or_Flush [of ok_sink loaded "WorkerPass NoneReady" b']
    reachable_loaded [of ok_sink] st ch
  have "worker loaded = running loaded \<and> running loaded"
    by simp
  with reachable_loaded [of ok_sink] st ch show ?thesis by blast
qed

lemma execution_to_b_block:
  "New () ''stream'' cfg_block = Ok (fresh cfg_block)"
  "Start (fresh cfg_block) = (None, b_block\<lparr>records := []\<rparr>)"
  "Add [1] ''a'' (b_block\<lparr>records := []\<rparr>) = Returned None b_block"
  "Add [3] ''c'' b_block = Blocked waiting"
  "Stop waiting = (None, halted)"
proof -
  show "New () ''stream'' cfg_block = Ok (fresh cfg_block)"
    by (simp add: New_def fresh_def cfg_block_def DefaultConfig_def MaxKinesisBatchSize_def
        sint_50ms sint_Second)
  show "Start (fresh cfg_block) = (None, b_block\<lparr>records := []\<rparr>)"
    by (simp add: Start_def b_block_def fresh_def)
  have "running (b_block\<lparr>records := []\<rparr>)" "AddBlocksWhenBufferFull (config (b_block\<lparr>records := []\<rparr>))"
    "has_room (b_block\<lparr>records := []\<rparr>)"
    by (simp_all add: b_block_def fresh_def cfg_block_def DefaultConfig_def has_room_def
        len_records_def cap_records_def)
  then show "Add [1] ''a'' (b_block\<lparr>records := []\<rparr>) = Returned None b_block"
    by (simp add: Add_def rec0_def) (simp add: b_block_def fresh_def rec0_def)
  show "Add [3] ''c'' b_block = Blocked waiting"
    using b_block_facts by (simp add: Add_def rec2_def waiting_def) (simp add: b_block_def fresh_def)
  show "Stop waiting = (None, halted)"
    by (simp add: Stop_def sendStats_def halted_def waiting_def b_block_def fresh_def
        cfg_block_def DefaultConfig_def)
qed

lemma reachable_waiting: "reachable put waiting"
proof -
  have "reachable put (fresh cfg_block)"
    using execution_to_b_block(1) by (rule reachable.init)
  then have "reachable put (b_block\<lparr>records := []\<rparr>)"
    using step.start [OF execution_to_b_block(2)] by (rule reachable.move)
  then have "reachable put b_block"
    using step.add_returns [OF execution_to_b_block(3)] by (rule reachable.move)
  then show ?thesis
    using step.add_blocks [OF execution_to_b_block(4)] by (rule reachable.move)
qed

text \<open>
  C9, as stated, fails: \<open>Add\<close> has no way to see the stop. In the execution \<open>New\<close>,
  \<open>Start\<close>, \<open>Add\<close>, \<open>Add\<close> (which waits, the buffer being full), \<open>Stop\<close>, the second
  \<open>Add\<close> is still waiting after \<open>Stop\<close> has returned: it has returned nothing, the worker
  is gone, no goroutine is pending, and the scheduler has nothing to run.
\<close>

theorem blocked_Add_survives_Stop:
  "reachable failing_sink waiting \<and> Add [3] ''c'' b_block = Blocked waiting \<and>
   Stop waiting = (None, halted) \<and> \<not> running halted \<and> \<not> worker halted \<and>
   sendq halted = [(rec2, AddCaller)] \<and> woken halted = [] \<and> goroutines halted = [] \<and>
   runGoroutines halted = Ok halted"
proof -
  have f: "\<not> running halted" "\<not> worker halted" "sendq halted = [(rec2, AddCaller)]"
    "woken halted = []" "goroutines halted = []"
    by (simp_all add: halted_def waiting_def b_block_def fresh_def)
  have "runGoroutines halted = Ok (halted\<lparr>goroutines := goroutines halted\<rparr>)"
    unfolding runGoroutines_def f(5) by (simp add: f(5))
  then have "runGoroutines halted = Ok halted" by simp
  with f reachable_waiting [of failing_sink] execution_to_b_block(4,5) show ?thesis
    by simp
qed

text \<open>
  C9, amended: \<open>Stop\<close> leaves the senders waiting at the buffer as they are and answers
  none of them; a stopped producer with no goroutine pending makes no move of its own; a
  waiting \<open>Add\<close> is released only by a receive from the buffer (in \<open>Flush\<close>, or by the
  worker after a new \<open>Start\<close>), which moves its record to the tail; and in every execution
  every \<open>Add\<close> released that way has returned nil, not an error.
\<close>

theorem blocked_Add_released_by_receive:
  "sendq (snd (Stop b)) = sendq b \<and> woken (snd (Stop b)) = woken b \<and>
   (\<not> worker b \<and> goroutines b = [] \<and> (m = Scheduler \<or> (\<exists>r. m = WorkerPass r)) \<and>
    step put b m b' \<longrightarrow> b' = b) \<and>
   (reachable put b \<longrightarrow> (\<forall>e \<in> set (woken b). e = None)) \<and>
   (records b = r # rest \<and> sendq b = (v, AddCaller) # q \<longrightarrow>
      receive 1 b = ([r], b\<lparr>records := rest @ [v], sendq := q, woken := woken b @ [None]\<rparr>))"
proof -
  have quiescent: "b' = b"
    if a: "\<not> worker b \<and> goroutines b = [] \<and> (m = Scheduler \<or> (\<exists>r. m = WorkerPass r)) \<and>
           step put b m b'"
  proof -
    from a have st: "step put b m b'" and w: "\<not> worker b" and g: "goroutines b = []"
      and m: "m = Scheduler \<or> (\<exists>r. m = WorkerPass r)"
      by simp_all
    from st m w have "runGoroutines b = Ok b'"
      by (cases rule: step.cases) auto
    moreover have "runGoroutines b = Ok (b\<lparr>goroutines := goroutines b\<rparr>)"
      unfolding runGoroutines_def g by (simp add: g)
    ultimately show ?thesis by simp
  qed
  have rel: "receive 1 b = ([r], b\<lparr>records := rest @ [v], sendq := q, woken := woken b @ [None]\<rparr>)"
    if "records b = r # rest \<and> sendq b = (v, AddCaller) # q"
    using that by (simp add: Let_def)
  from quiescent rel reachable_invariant [of put b] Stop_frame(2,6) [of b] show ?thesis
    by blast
qed

theorem blocked_Add_released_by_receive_witness:
  "\<not> worker halted \<and> goroutines halted = [] \<and> step failing_sink halted Scheduler halted \<and>
   reachable failing_sink waiting \<and> woken waiting = [] \<and>
   sendq (snd (Stop waiting)) = [(rec2, AddCaller)] \<and>
   records waiting = [rec0] \<and> sendq waiting = [(rec2, AddCaller)] \<and>
   receive 1 waiting = ([rec0], waiting\<lparr>records := [rec2], sendq := [], woken := [None]\<rparr>)"
proof -
  have f: "\<not> worker halted" "goroutines halted = []"
    by (simp_all add: halted_def waiting_def b_block_def fresh_def)
  have w: "records waiting = [rec0]" "sendq waiting = [(rec2, AddCaller)]" "woken waiting = []"
    by (simp_all add: waiting_def b_block_def fresh_def)
  have "runGoroutines halted = Ok (halted\<lparr>goroutines := goroutines halted\<rparr>)"
    unfolding runGoroutines_def f(2) by (simp add: f(2))
  then have "runGoroutines halted = Ok halted" by simp
  then have st: "step failing_sink halted Scheduler halted"
    by (rule step.scheduler)
  from blocked_Add_released_by_receive [of waiting Scheduler failing_sink waiting rec0 "[]" rec2 "[]"] w
  have 1: "sendq (snd (Stop waiting)) = [(rec2, AddCaller)]"
    and 2: "receive 1 waiting = ([rec0], waiting\<lparr>records := [rec2], sendq := [], woken := [None]\<rparr>)"
    by simp_all
  from blocked_Add_released_by_receive [of halted Scheduler failing_sink halted] f st
  have "halted = halted" by simp
  with f st reachable_waiting [of failing_sink] w 1 2 show ?thesis by simp
qed

end
